theory Spec2Isabelle
  imports Complex_Main "HOL-Library.Char_ord" "HOL-Library.List_Lexorder" "HOL-Library.AList"
    "HOL-Library.Sublist" "HOL-Library.Multiset"
begin

section \<open>Python values shared by the modules\<close>

text \<open>
  The exceptions the modelled functions can raise. \<open>ValueError\<close> is what
  \<open>takens_embedding\<close> raises on a short series, what \<open>range\<close> raises on a zero step and
  what numpy raises on a negative shape or a failed broadcast; \<open>KeyError\<close> is a failed
  dictionary lookup, \<open>IndexError\<close> an out-of-range tuple or list read and
  \<open>LinAlgError\<close> what \<open>np.linalg.inv\<close> raises on a singular matrix.
\<close>

datatype py_error = ValueError | KeyError | IndexError | LinAlgError

text \<open>Python's \<open>range(start, stop, step)\<close> over unbounded integers.\<close>

definition range_len :: "int \<Rightarrow> int \<Rightarrow> int \<Rightarrow> nat" where
  "range_len start stop step =
     (if 0 < step then (if start < stop then nat ((stop - start - 1) div step + 1) else 0)
      else (if stop < start then nat ((start - stop - 1) div (- step) + 1) else 0))"

definition py_range :: "int \<Rightarrow> int \<Rightarrow> int \<Rightarrow> py_error + int list" where
  "py_range start stop step =
     (if step = 0 then Inl ValueError
      else Inr (map (\<lambda>k. start + int k * step) [0..<range_len start stop step]))"

text \<open>A slice \<open>xs[start:stop]\<close>: negative bounds count from the end, and both are clamped.\<close>

definition slice_index :: "nat \<Rightarrow> int \<Rightarrow> nat" where
  "slice_index n i = (if i < 0 then nat (max 0 (int n + i)) else min n (nat i))"

definition py_slice :: "'a list \<Rightarrow> int \<Rightarrow> int \<Rightarrow> 'a list" where
  "py_slice xs start stop =
     (let a = slice_index (length xs) start; b = slice_index (length xs) stop
      in take (b - a) (drop a xs))"

section \<open>Delay embedding (timeseries.py)\<close>

text \<open>
  A two-dimensional float array is a list of rows. \<open>np.zeros((r, c))\<close> raises
  \<open>ValueError\<close> on a negative dimension. The assignment \<open>embedded[:, i] = col\<close> writes
  \<open>col\<close> down column \<open>i\<close>; numpy broadcasts a one-element \<open>col\<close> and raises
  \<open>ValueError\<close> on any other length mismatch.
\<close>

definition np_zeros2 :: "int \<Rightarrow> int \<Rightarrow> py_error + real list list" where
  "np_zeros2 r c =
     (if r < 0 \<or> c < 0 then Inl ValueError
      else Inr (replicate (nat r) (replicate (nat c) 0)))"

definition set_column :: "real list list \<Rightarrow> nat \<Rightarrow> real list \<Rightarrow> py_error + real list list" where
  "set_column m i col =
     (if length col = length m then Inr (map2 (\<lambda>row v. row[i := v]) m col)
      else if length col = 1 then Inr (map (\<lambda>row. row[i := hd col]) m)
      else Inl ValueError)"

fun takens_loop ::
  "real list \<Rightarrow> int \<Rightarrow> int \<Rightarrow> nat list \<Rightarrow> real list list \<Rightarrow> py_error + real list list" where
  "takens_loop ts delay num_points [] embedded = Inr embedded"
| "takens_loop ts delay num_points (i # rest) embedded =
     (case set_column embedded i
             (py_slice ts (int i * delay) (int i * delay + num_points)) of
        Inl e \<Rightarrow> Inl e
      | Inr embedded' \<Rightarrow> takens_loop ts delay num_points rest embedded')"

definition takens_embedding :: "real list \<Rightarrow> int \<Rightarrow> int \<Rightarrow> py_error + real list list" where
  "takens_embedding time_series delay dimension =
     (let n = int (length time_series);
          num_points = n - (dimension - 1) * delay
      in if num_points \<le> 0 then Inl ValueError
         else (case np_zeros2 num_points dimension of
                 Inl e \<Rightarrow> Inl e
               | Inr embedded \<Rightarrow>
                   takens_loop time_series delay num_points [0..<nat dimension] embedded))"

subsection \<open>The embedding has the stated points\<close>


lemma py_slice_window:
  assumes "0 \<le> a" "0 \<le> k" "a + k \<le> int (length xs)"
  shows "py_slice xs a (a + k) = take (nat k) (drop (nat a) xs)"
  using assms by (simp add: py_slice_def slice_index_def Let_def min_def nat_add_distrib nat_diff_distrib)

lemma set_column_ok:
  assumes "length col = length m"
  shows "set_column m i col = Inr (map2 (\<lambda>row v. row[i := v]) m col)"
  using assms by (simp add: set_column_def)

lemma takens_loop_ok:
  assumes "length emb = nat k" "0 < k" "0 \<le> delay"
    and "\<forall>i \<in> set is. int i * delay + k \<le> int (length ts)"
    and "\<forall>row \<in> set emb. length row = d"
    and "\<forall>i \<in> set is. i < d"
  shows "\<exists>emb'. takens_loop ts delay k is emb = Inr emb' \<and> length emb' = nat k
          \<and> (\<forall>row \<in> set emb'. length row = d)
          \<and> (\<forall>r < nat k. \<forall>c < d. emb' ! r ! c =
                (if c \<in> set is then ts ! (r + c * nat delay) else emb ! r ! c))"
  using assms
proof (induction "is" arbitrary: emb)
  case Nil
  then show ?case by simp
next
  case (Cons i rest)
  let ?col = "py_slice ts (int i * delay) (int i * delay + k)"
  have col: "?col = take (nat k) (drop (nat (int i * delay)) ts)"
    using Cons.prems by (intro py_slice_window) auto
  have off: "nat (int i * delay) = i * nat delay"
    using Cons.prems(3) by (simp add: nat_mult_distrib)
  have fit: "i * nat delay + nat k \<le> length ts"
  proof -
    have "int (i * nat delay + nat k) = int i * delay + k"
      using Cons.prems(2,3) by simp
    then show ?thesis using Cons.prems(4) by (simp del: of_nat_add of_nat_mult)
  qed
  have len: "length ?col = nat k"
    unfolding col off using fit by simp
  let ?emb1 = "map2 (\<lambda>row v. row[i := v]) emb ?col"
  have sc: "set_column emb i ?col = Inr ?emb1"
    using len Cons.prems(1) by (simp add: set_column_def)
  have l1: "length ?emb1 = nat k" using len Cons.prems(1) by simp
  have r1: "\<forall>row \<in> set ?emb1. length row = d"
    using Cons.prems(5) by (auto simp: set_zip)
  obtain emb' where e: "takens_loop ts delay k rest ?emb1 = Inr emb'" "length emb' = nat k"
     "\<forall>row \<in> set emb'. length row = d"
     "\<forall>r < nat k. \<forall>c < d. emb' ! r ! c =
                (if c \<in> set rest then ts ! (r + c * nat delay) else ?emb1 ! r ! c)"
    using Cons.IH[OF l1 Cons.prems(2,3) _ r1] Cons.prems(4,6) by auto
  have cell: "?emb1 ! r ! c = (if c = i then ts ! (r + i * nat delay) else emb ! r ! c)"
    if "r < nat k" "c < d" for r c
  proof -
    have "length (emb ! r) = d" using that Cons.prems(1,5) by simp
    moreover have "?col ! r = ts ! (r + i * nat delay)"
      using that fit unfolding col off by (simp add: add.commute)
    ultimately show ?thesis using that len Cons.prems(1) by (simp add: nth_list_update)
  qed
  show ?case using e cell by (auto simp: sc)
qed

text \<open>
  Claim C6. For a series of length \<open>n\<close>, a delay \<open>\<tau> \<ge> 1\<close> and a dimension
  \<open>d \<ge> 1\<close>: when \<open>n - (d - 1) * \<tau> > 0\<close> the embedding returns exactly that many
  points, each with \<open>d\<close> coordinates, point \<open>i\<close> being
  \<open>(x\<^sub>i, x\<^sub>i\<^sub>+\<^sub>\<tau>, \<dots>, x\<^sub>i\<^sub>+\<^sub>(\<^sub>d\<^sub>-\<^sub>1\<^sub>)\<^sub>\<tau>)\<close>; otherwise it raises. The exception the
  source raises is Python's \<open>ValueError\<close> ("Time series too short"), which is the
  failure the specification calls InsufficientLengthError.
\<close>

theorem takens_embedding_points:
  assumes "1 \<le> delay" "1 \<le> dimension"
  shows "(0 < int (length ts) - (dimension - 1) * delay \<longrightarrow>
           (\<exists>emb. takens_embedding ts delay dimension = Inr emb
              \<and> int (length emb) = int (length ts) - (dimension - 1) * delay
              \<and> (\<forall>i < length emb. emb ! i = map (\<lambda>j. ts ! (i + j * nat delay)) [0..<nat dimension])))
       \<and> (int (length ts) - (dimension - 1) * delay \<le> 0 \<longrightarrow>
             takens_embedding ts delay dimension = Inl ValueError)"
proof (intro conjI impI)
  assume "int (length ts) - (dimension - 1) * delay \<le> 0"
  then show "takens_embedding ts delay dimension = Inl ValueError"
    by (simp add: takens_embedding_def Let_def)
next
  define k where "k = int (length ts) - (dimension - 1) * delay"
  assume pos: "0 < int (length ts) - (dimension - 1) * delay"
  then have k: "0 < k" by (simp add: k_def)
  let ?z = "replicate (nat k) (replicate (nat dimension) (0::real))"
  have bound: "\<forall>i \<in> set [0..<nat dimension]. int i * delay + k \<le> int (length ts)"
  proof
    fix i assume "i \<in> set [0..<nat dimension]"
    then have "int i \<le> dimension - 1" by auto
    then have "int i * delay \<le> (dimension - 1) * delay"
      using assms(1) by (intro mult_right_mono) auto
    then show "int i * delay + k \<le> int (length ts)" by (simp add: k_def)
  qed
  obtain emb' where e: "takens_loop ts delay k [0..<nat dimension] ?z = Inr emb'" "length emb' = nat k"
     "\<forall>row \<in> set emb'. length row = nat dimension"
     "\<forall>r < nat k. \<forall>c < nat dimension. emb' ! r ! c =
                (if c \<in> set [0..<nat dimension] then ts ! (r + c * nat delay) else ?z ! r ! c)"
    using takens_loop_ok[of ?z k delay "[0..<nat dimension]" ts "nat dimension"] k assms bound
    by auto
  have run: "takens_embedding ts delay dimension = Inr emb'"
    using k assms e(1) by (simp add: takens_embedding_def Let_def np_zeros2_def k_def)
  have rows: "emb' ! i = map (\<lambda>j. ts ! (i + j * nat delay)) [0..<nat dimension]" if "i < length emb'" for i
  proof (rule nth_equalityI)
    show "length (emb' ! i) = length (map (\<lambda>j. ts ! (i + j * nat delay)) [0..<nat dimension])"
      using e(2,3) that by simp
  next
    fix c assume "c < length (emb' ! i)"
    then have "c < nat dimension" using e(2,3) that by simp
    then show "emb' ! i ! c = map (\<lambda>j. ts ! (i + j * nat delay)) [0..<nat dimension] ! c"
      using e(4) that e(2) by simp
  qed
  show "\<exists>emb. takens_embedding ts delay dimension = Inr emb
              \<and> int (length emb) = int (length ts) - (dimension - 1) * delay
              \<and> (\<forall>i < length emb. emb ! i = map (\<lambda>j. ts ! (i + j * nat delay)) [0..<nat dimension])"
    using run e(2) rows k by (auto simp: k_def)
qed


theorem takens_embedding_points_witness:
  "(1::int) \<le> 2
   \<and> 0 < int (length [1, 2, 3, 4, 5 :: real]) - (2 - 1) * 2
   \<and> takens_embedding [1, 2, 3, 4, 5] 2 2 = Inr [[1, 3], [2, 4], [3, 5]]
   \<and> int (length [1, 2 :: real]) - (2 - 1) * 3 \<le> 0
   \<and> takens_embedding [1, 2] 3 2 = Inl ValueError"
proof -
  have ok: "takens_embedding [1, 2, 3, 4, 5] 2 2 = Inr [[1, 3], [2, 4], [3, 5]]"
    by code_simp
  have "takens_embedding [1, 2] 3 2 = Inl ValueError"
    using takens_embedding_points [of 3 2 "[1, 2]"] by simp
  then show ?thesis using ok by simp
qed


section \<open>Persistence diagrams and their statistics (persistence.py)\<close>

subsection \<open>Values\<close>

text \<open>
  A persistence diagram is a list of (birth, death) pairs; a death is a finite float or
  the sentinel \<open>np.inf\<close>. Floats are modelled as reals: the arithmetic of the
  statistics is exact here and rounded in the source, and nothing below depends on the
  rounding. A Python dictionary is an association list in insertion order, read with
  \<open>map_of\<close> and written with \<open>AList.update\<close>, which replaces the value of a key in
  place and appends a new key, as a Python \<open>dict\<close> does.
\<close>

datatype death = Finite real | Infinity

type_synonym diagram = "(real \<times> death) list"

datatype pyval = PyInt int | PyFloat real

type_synonym stats_dict = "(string \<times> pyval) list"

fun pyval_real :: "pyval \<Rightarrow> real" where
  "pyval_real (PyInt i) = real_of_int i"
| "pyval_real (PyFloat x) = x"

text \<open>The read \<open>d[key][field]\<close> of a dictionary of dictionaries, \<open>None\<close> when a key is absent.\<close>

definition stat_of :: "(string \<times> stats_dict) list \<Rightarrow> string \<Rightarrow> string \<Rightarrow> pyval option" where
  "stat_of d key field = (case map_of d key of None \<Rightarrow> None | Some s \<Rightarrow> map_of s field)"

definition err_bind :: "py_error + 'a \<Rightarrow> ('a \<Rightarrow> py_error + 'b) \<Rightarrow> py_error + 'b" where
  "err_bind m f = (case m of Inl e \<Rightarrow> Inl e | Inr x \<Rightarrow> f x)"

definition dict_get :: "('k \<times> 'v) list \<Rightarrow> 'k \<Rightarrow> py_error + 'v" where
  "dict_get d k = (case map_of d k of None \<Rightarrow> Inl KeyError | Some v \<Rightarrow> Inr v)"

fun map_err :: "('a \<Rightarrow> py_error + 'b) \<Rightarrow> 'a list \<Rightarrow> py_error + 'b list" where
  "map_err f [] = Inr []"
| "map_err f (x # xs) =
     (case f x of Inl e \<Rightarrow> Inl e
      | Inr y \<Rightarrow> (case map_err f xs of Inl e \<Rightarrow> Inl e | Inr ys \<Rightarrow> Inr (y # ys)))"

text \<open>The dictionary key \<open>f"H{dim}"\<close>: the letter H and the decimal digits of \<open>dim\<close>.\<close>

definition digit_char :: "nat \<Rightarrow> char" where
  "digit_char n = char_of (48 + n)"

function str_nat :: "nat \<Rightarrow> string" where
  "str_nat n = (if n < 10 then [digit_char n] else str_nat (n div 10) @ [digit_char (n mod 10)])"
  by pat_completeness auto
termination
  by (relation "measure id") auto

definition hkey :: "nat \<Rightarrow> string" where
  "hkey k = ''H'' @ str_nat k"

subsection \<open>The numpy reductions the statistics use\<close>

text \<open>
  \<open>np.std\<close> is the population standard deviation; \<open>np.percentile\<close> interpolates
  linearly between the two order statistics around position \<open>q / 100 * (n - 1)\<close>;
  \<open>np.median\<close> is the middle order statistic or the mean of the two middle ones.
  \<open>int(x)\<close> on a float truncates towards zero.
\<close>

definition np_mean :: "real list \<Rightarrow> real" where
  "np_mean xs = sum_list xs / real (length xs)"

definition np_std :: "real list \<Rightarrow> real" where
  "np_std xs = sqrt (np_mean (map (\<lambda>x. (x - np_mean xs)\<^sup>2) xs))"

definition np_max :: "real list \<Rightarrow> real" where
  "np_max xs = Max (set xs)"

definition np_min :: "real list \<Rightarrow> real" where
  "np_min xs = Min (set xs)"

definition np_median :: "real list \<Rightarrow> real" where
  "np_median xs =
     (let s = sort xs; n = length s
      in if odd n then s ! (n div 2) else (s ! (n div 2 - 1) + s ! (n div 2)) / 2)"

definition np_percentile :: "real list \<Rightarrow> real \<Rightarrow> real" where
  "np_percentile xs q =
     (let s = sort xs; n = length s;
          pos = q / 100 * real (n - 1);
          lo = nat \<lfloor>pos\<rfloor>;
          hi = min (lo + 1) (n - 1)
      in s ! lo + (pos - real lo) * (s ! hi - s ! lo))"

definition py_int_of_float :: "real \<Rightarrow> int" where
  "py_int_of_float x = (if 0 \<le> x then \<lfloor>x\<rfloor> else \<lceil>x\<rceil>)"

text \<open>
  The finite lifespans of a diagram: the rows whose death is not \<open>np.inf\<close>, each as
  death minus birth. \<open>compute_persistence\<close> selects them with
  \<open>dgm[dgm[:, 1] != np.inf]\<close>, the sparse path with \<open>np.isfinite\<close> on the deaths and
  the vectorizer with \<open>np.isfinite\<close> on the differences; on diagrams of this type the
  three agree.
\<close>

definition finite_lifespans :: "diagram \<Rightarrow> real list" where
  "finite_lifespans dgm =
     List.map_filter (\<lambda>(b, d). case d of Finite x \<Rightarrow> Some (x - b) | Infinity \<Rightarrow> None) dgm"

text \<open>
  The entropy of the lifespans, \<open>-np.sum(normed * np.log(normed + 1e-10))\<close> with
  \<open>normed = lifespans / (lifespans.sum() + 1e-10)\<close>.
\<close>

definition lifespan_entropy :: "real list \<Rightarrow> real" where
  "lifespan_entropy lifespans =
     (let normed = map (\<lambda>l. l / (sum_list lifespans + 1 / 10 ^ 10)) lifespans
      in - sum_list (map (\<lambda>p. p * ln (p + 1 / 10 ^ 10)) normed))"

text \<open>
  The statistics dictionary that \<open>compute_persistence\<close> and
  \<open>_gudhi_sparse_persistence\<close> both build for a dimension, from its finite lifespans.
\<close>

definition lifespan_stats :: "real list \<Rightarrow> stats_dict" where
  "lifespan_stats lifespans =
     (if 0 < length lifespans then
        [(''count'', PyInt (int (length lifespans))),
         (''mean_lifespan'', PyFloat (np_mean lifespans)),
         (''std_lifespan'', PyFloat (np_std lifespans)),
         (''median_lifespan'', PyFloat (np_median lifespans)),
         (''max_lifespan'', PyFloat (np_max lifespans)),
         (''iqr_lifespan'',
            PyFloat (np_percentile lifespans 75 - np_percentile lifespans 25)),
         (''entropy'', PyFloat (lifespan_entropy lifespans))]
      else [(''count'', PyInt 0)])"

subsection \<open>compute\_persistence\<close>

text \<open>
  An \<open>N \<times> N\<close> array is its first dimension and its entries. \<open>ripser\<close> is an external
  library: it is a parameter of the model, a function from the matrix and the keyword
  arguments to the list \<open>result["dgms"]\<close>.
\<close>

record dist_matrix =
  shape0 :: nat
  entry :: "nat \<Rightarrow> nat \<Rightarrow> real"

record ripser_kwargs =
  maxdim :: int
  distance_matrix :: bool
  thresh :: "real option"
  n_perm :: "int option"

type_synonym ripser_fn = "dist_matrix \<Rightarrow> ripser_kwargs \<Rightarrow> diagram list"

text \<open>
  The result dictionary. Its key \<open>"method"\<close> is set by the multiple-subsample path
  only; the field is called \<open>method_name\<close> here and is \<open>None\<close> when the key is absent.
\<close>

record persistence_result =
  diagrams :: "(string \<times> diagram) list"
  stats :: "(string \<times> stats_dict) list"
  num_points :: int
  method_name :: "string option"

fun persistence_loop ::
  "diagram list \<Rightarrow> nat list \<Rightarrow> (string \<times> diagram) list \<Rightarrow> (string \<times> stats_dict) list
   \<Rightarrow> py_error + ((string \<times> diagram) list \<times> (string \<times> stats_dict) list)" where
  "persistence_loop dgms [] ds ss = Inr (ds, ss)"
| "persistence_loop dgms (k # rest) ds ss =
     (if k < length dgms then
        (let key = hkey k;
             dgm = dgms ! k;
             lifespans = finite_lifespans dgm
         in persistence_loop dgms rest
              (AList.update key dgm ds)
              (AList.update key (lifespan_stats lifespans) ss))
      else Inl IndexError)"

definition compute_persistence ::
  "ripser_fn \<Rightarrow> dist_matrix \<Rightarrow> int \<Rightarrow> real option \<Rightarrow> int option
   \<Rightarrow> py_error + persistence_result" where
  "compute_persistence ripser dm max_dim threshold nperm =
     (let kwargs = \<lparr>maxdim = max_dim, distance_matrix = True,
                     thresh = threshold, n_perm = nperm\<rparr>;
          dgms = ripser dm kwargs
      in case persistence_loop dgms [0..<nat (max_dim + 1)] [] [] of
           Inl e \<Rightarrow> Inl e
         | Inr (ds, ss) \<Rightarrow>
             Inr \<lparr>diagrams = ds, stats = ss,
                  num_points = int (shape0 dm), method_name = None\<rparr>)"



subsection \<open>The sparse path\<close>

text \<open>
  \<open>_gudhi_sparse_persistence\<close> (the leading underscore of a private Python name is
  dropped). GUDHI is external: \<open>gudhi dm sparse max_dimension k\<close> stands for
  \<open>RipsComplex(distance_matrix=dm, sparse=sparse)\<close>, its simplex tree up to
  \<open>max_dimension\<close>, and \<open>persistence_intervals_in_dimension(k)\<close> of that tree.
\<close>

type_synonym gudhi_fn = "dist_matrix \<Rightarrow> real \<Rightarrow> int \<Rightarrow> nat \<Rightarrow> diagram"

fun gudhi_loop ::
  "(nat \<Rightarrow> diagram) \<Rightarrow> nat list \<Rightarrow> (string \<times> diagram) list \<Rightarrow> (string \<times> stats_dict) list
   \<Rightarrow> (string \<times> diagram) list \<times> (string \<times> stats_dict) list" where
  "gudhi_loop intervals_in [] ds ss = (ds, ss)"
| "gudhi_loop intervals_in (k # rest) ds ss =
     (let key = hkey k;
          intervals = intervals_in k
      in if length intervals = 0 then
           gudhi_loop intervals_in rest
             (AList.update key [] ds) (AList.update key [(''count'', PyInt 0)] ss)
         else
           gudhi_loop intervals_in rest
             (AList.update key intervals ds)
             (AList.update key (lifespan_stats (finite_lifespans intervals)) ss))"

definition gudhi_sparse_persistence ::
  "gudhi_fn \<Rightarrow> dist_matrix \<Rightarrow> int \<Rightarrow> persistence_result" where
  "gudhi_sparse_persistence gudhi dm max_dim =
     (case gudhi_loop (gudhi dm (3 / 10) (max_dim + 1)) [0..<nat (max_dim + 1)] [] [] of
        (ds, ss) \<Rightarrow>
          \<lparr>diagrams = ds, stats = ss, num_points = int (shape0 dm), method_name = None\<rparr>)"

subsection \<open>The multiple-subsample path\<close>

text \<open>
  \<open>np.random.choice(n, size, replace=False)\<close> reads and advances numpy's global
  generator. The model takes the generator as a parameter: \<open>choice i n size\<close> is the
  index list that the \<open>i\<close>-th draw of the call returns. numpy raises \<open>ValueError\<close> on
  a negative size, and \<open>distance_matrix[np.ix_(indices, indices)]\<close> raises
  \<open>IndexError\<close> on an index outside the matrix.
\<close>

type_synonym choice_fn = "nat \<Rightarrow> nat \<Rightarrow> nat \<Rightarrow> nat list"

definition np_ix :: "dist_matrix \<Rightarrow> nat list \<Rightarrow> py_error + dist_matrix" where
  "np_ix dm indices =
     (if list_all (\<lambda>i. i < shape0 dm) indices then
        Inr \<lparr>shape0 = length indices,
             entry = (\<lambda>i j. entry dm (indices ! i) (indices ! j))\<rparr>
      else Inl IndexError)"

text \<open>The inner loop of a draw: keep the statistics of each dimension with features.\<close>

fun collect_loop ::
  "(string \<times> stats_dict) list \<Rightarrow> nat list \<Rightarrow> (string \<times> stats_dict list) list
   \<Rightarrow> py_error + (string \<times> stats_dict list) list" where
  "collect_loop rstats [] all_stats = Inr all_stats"
| "collect_loop rstats (k # rest) all_stats =
     (let key = hkey k in
      err_bind (dict_get rstats key) (\<lambda>st.
      err_bind (dict_get st ''count'') (\<lambda>c.
        if 0 < pyval_real c then
          err_bind (dict_get all_stats key) (\<lambda>sofar.
            collect_loop rstats rest (AList.update key (sofar @ [st]) all_stats))
        else collect_loop rstats rest all_stats)))"

text \<open>
  One pass of the outer loop up to its inner loop: the draw, the sub-matrix and
  \<open>result["stats"]\<close> of \<open>compute_persistence\<close> on it.
\<close>

definition draw_stats ::
  "ripser_fn \<Rightarrow> choice_fn \<Rightarrow> dist_matrix \<Rightarrow> int \<Rightarrow> int \<Rightarrow> nat
   \<Rightarrow> py_error + (string \<times> stats_dict) list" where
  "draw_stats ripser choice dm max_dim subsample_size i =
     (let n = shape0 dm;
          sz = min subsample_size (int n)
      in if sz < 0 then Inl ValueError
         else
           err_bind (np_ix dm (choice i n (nat sz))) (\<lambda>sub_matrix.
           err_bind (compute_persistence ripser sub_matrix max_dim (Some (8 / 10)) None) (\<lambda>result.
             Inr (stats result))))"

fun subsample_loop ::
  "ripser_fn \<Rightarrow> choice_fn \<Rightarrow> dist_matrix \<Rightarrow> int \<Rightarrow> int \<Rightarrow> nat list
   \<Rightarrow> (string \<times> stats_dict list) list \<Rightarrow> py_error + (string \<times> stats_dict list) list" where
  "subsample_loop ripser choice dm max_dim subsample_size [] all_stats = Inr all_stats"
| "subsample_loop ripser choice dm max_dim subsample_size (i # rest) all_stats =
     err_bind (draw_stats ripser choice dm max_dim subsample_size i) (\<lambda>rstats.
     err_bind (collect_loop rstats [0..<nat (max_dim + 1)] all_stats) (\<lambda>all_stats'.
       subsample_loop ripser choice dm max_dim subsample_size rest all_stats'))"

definition field_values :: "stats_dict list \<Rightarrow> string \<Rightarrow> py_error + real list" where
  "field_values sub_stats name =
     map_err (\<lambda>s. err_bind (dict_get s name) (\<lambda>v. Inr (pyval_real v))) sub_stats"

definition aggregate_stats :: "stats_dict list \<Rightarrow> int \<Rightarrow> int \<Rightarrow> py_error + stats_dict" where
  "aggregate_stats sub_stats num_subsamples subsample_size =
     (if 0 < length sub_stats then
        err_bind (field_values sub_stats ''count'') (\<lambda>counts.
        err_bind (field_values sub_stats ''mean_lifespan'') (\<lambda>means.
        err_bind (field_values sub_stats ''std_lifespan'') (\<lambda>stds.
        err_bind (field_values sub_stats ''median_lifespan'') (\<lambda>medians.
        err_bind (field_values sub_stats ''max_lifespan'') (\<lambda>maxes.
        err_bind (field_values sub_stats ''iqr_lifespan'') (\<lambda>iqrs.
        err_bind (field_values sub_stats ''entropy'') (\<lambda>entropies.
          Inr [(''count'', PyInt (py_int_of_float (np_mean counts))),
               (''mean_lifespan'', PyFloat (np_mean means)),
               (''std_lifespan'', PyFloat (np_mean stds)),
               (''median_lifespan'', PyFloat (np_mean medians)),
               (''max_lifespan'', PyFloat (np_max maxes)),
               (''iqr_lifespan'', PyFloat (np_mean iqrs)),
               (''entropy'', PyFloat (np_mean entropies)),
               (''num_subsamples'', PyInt num_subsamples),
               (''subsample_size'', PyInt subsample_size)])))))))
      else Inr [(''count'', PyInt 0)])"

fun aggregate_loop ::
  "(string \<times> stats_dict list) list \<Rightarrow> int \<Rightarrow> int \<Rightarrow> nat list
   \<Rightarrow> (string \<times> diagram) list \<Rightarrow> (string \<times> stats_dict) list
   \<Rightarrow> py_error + ((string \<times> diagram) list \<times> (string \<times> stats_dict) list)" where
  "aggregate_loop all_stats num_subsamples subsample_size [] ds ss = Inr (ds, ss)"
| "aggregate_loop all_stats num_subsamples subsample_size (k # rest) ds ss =
     (let key = hkey k in
      err_bind (dict_get all_stats key) (\<lambda>sub_stats.
      err_bind (aggregate_stats sub_stats num_subsamples subsample_size) (\<lambda>agg.
        aggregate_loop all_stats num_subsamples subsample_size rest
          (AList.update key [] ds) (AList.update key agg ss))))"

definition multi_subsample_persistence ::
  "ripser_fn \<Rightarrow> choice_fn \<Rightarrow> dist_matrix \<Rightarrow> int \<Rightarrow> int \<Rightarrow> int
   \<Rightarrow> py_error + persistence_result" where
  "multi_subsample_persistence ripser choice dm max_dim subsample_size num_subsamples =
     (let n = shape0 dm;
          all_stats0 = map (\<lambda>k. (hkey k, [])) [0..<nat (max_dim + 1)]
      in err_bind (subsample_loop ripser choice dm max_dim subsample_size
                     [0..<nat num_subsamples] all_stats0) (\<lambda>all_stats.
         err_bind (aggregate_loop all_stats num_subsamples subsample_size
                     [0..<nat (max_dim + 1)] [] []) (\<lambda>(ds, ss).
           Inr \<lparr>diagrams = ds, stats = ss, num_points = int n,
                method_name = Some ''multi_subsample''\<rparr>)))"

subsection \<open>compute\_persistence\_scaled\<close>

definition compute_persistence_scaled ::
  "ripser_fn \<Rightarrow> gudhi_fn \<Rightarrow> choice_fn \<Rightarrow> dist_matrix \<Rightarrow> int
   \<Rightarrow> py_error + persistence_result" where
  "compute_persistence_scaled ripser gudhi choice dm max_dim =
     (let n = shape0 dm
      in if n \<le> 3000 then compute_persistence ripser dm max_dim (Some (8 / 10)) None
         else if n \<le> 10000 then
           err_bind (compute_persistence ripser dm 1 (Some (8 / 10)) None) (\<lambda>result_h01.
           err_bind (compute_persistence ripser dm 2 (Some (5 / 10))
                       (Some (min (int n) 2000))) (\<lambda>result_h2.
           err_bind (dict_get (diagrams result_h2) ''H2'') (\<lambda>d2.
           err_bind (dict_get (stats result_h2) ''H2'') (\<lambda>s2.
             Inr (result_h01\<lparr>diagrams := AList.update ''H2'' d2 (diagrams result_h01),
                              stats := AList.update ''H2'' s2 (stats result_h01)\<rparr>)))))
         else if n \<le> 50000 then Inr (gudhi_sparse_persistence gudhi dm max_dim)
         else multi_subsample_persistence ripser choice dm max_dim 2000 20)"

section \<open>Diagram vectorization (vectorize.py)\<close>

definition FEATURES_PER_DIM :: nat where
  "FEATURES_PER_DIM = 12"

definition NUM_DIMS :: nat where
  "NUM_DIMS = 3"

definition TOTAL_FEATURES :: nat where
  "TOTAL_FEATURES = FEATURES_PER_DIM * NUM_DIMS"

text \<open>The body of the loop of \<open>persistence_statistics\<close>: the block of one dimension.\<close>

definition dim_features :: "(string \<times> diagram) list \<Rightarrow> string \<Rightarrow> real list" where
  "dim_features dgms key =
     (let dgm = (case map_of dgms key of None \<Rightarrow> [] | Some d \<Rightarrow> d)
      in if length dgm = 0 then replicate FEATURES_PER_DIM 0
         else
           (let lifespans = finite_lifespans dgm
            in if length lifespans = 0 then replicate FEATURES_PER_DIM 0
               else
                 [real (length lifespans),
                  np_mean lifespans,
                  np_std lifespans,
                  np_median lifespans,
                  np_percentile lifespans 75 - np_percentile lifespans 25,
                  np_max lifespans,
                  np_max lifespans - np_min lifespans,
                  lifespan_entropy lifespans,
                  np_percentile lifespans 10,
                  np_percentile lifespans 25,
                  np_percentile lifespans 75,
                  np_percentile lifespans 90]))"

definition persistence_statistics :: "(string \<times> diagram) list \<Rightarrow> real list" where
  "persistence_statistics dgms = concat (map (dim_features dgms) [''H0'', ''H1'', ''H2''])"





section \<open>Cross-channel anomaly detection (timeseries.py)\<close>

text \<open>
  \<open>detect_anomalies_tada\<close>. The channels are a dictionary from names to series.
  \<open>np.corrcoef\<close>, \<open>ripser\<close>, \<open>np.cov\<close> and \<open>np.linalg.inv\<close> are external and are
  parameters: \<open>corrcoef\<close> takes the rows of \<open>window.T\<close> (one series per channel),
  \<open>cov\<close> the rows of \<open>features_matrix.T\<close>, and \<open>linalg_inv\<close> may raise \<open>LinAlgError\<close>.
\<close>

record anomaly =
  position :: int
  mahalanobis_score :: real
  severity :: string
  feature_values :: "(string \<times> pyval) list"

definition matrix_of_rows :: "real list list \<Rightarrow> dist_matrix" where
  "matrix_of_rows rows = \<lparr>shape0 = length rows, entry = (\<lambda>i j. rows ! i ! j)\<rparr>"

definition column_stack :: "real list list \<Rightarrow> nat \<Rightarrow> real list list" where
  "column_stack cols T = map (\<lambda>t. map (\<lambda>col. col ! t) cols) [0..<T]"

definition array_T :: "real list list \<Rightarrow> nat \<Rightarrow> real list list" where
  "array_T rows ncols = map (\<lambda>c. map (\<lambda>row. row ! c) rows) [0..<ncols]"

definition correlation_distance :: "real list list \<Rightarrow> real list list" where
  "correlation_distance corr =
     map (\<lambda>i. map (\<lambda>j. if i = j then 0 else 1 - \<bar>corr ! i ! j\<bar>) [0..<length (corr ! i)])
       [0..<length corr]"

text \<open>The body of the sliding-window loop: the four features of one window.\<close>

definition window_features ::
  "(real list list \<Rightarrow> real list list) \<Rightarrow> ripser_fn \<Rightarrow> real list list \<Rightarrow> nat \<Rightarrow> int \<Rightarrow> int
   \<Rightarrow> py_error + real list" where
  "window_features corrcoef ripser data n_channels window_size start =
     (let window = py_slice data start (start + window_size);
          corr = corrcoef (array_T window n_channels);
          dist = correlation_distance corr;
          dgms = ripser (matrix_of_rows dist)
                   \<lparr>maxdim = 0, distance_matrix = True, thresh = None, n_perm = None\<rparr>
      in if 0 < length dgms then
           (let lifespans = finite_lifespans (dgms ! 0)
            in if 0 < length lifespans then
                 Inr [np_mean lifespans, np_std lifespans, np_max lifespans,
                      real (length lifespans)]
               else Inr (replicate 4 0))
         else Inl IndexError)"

definition mahalanobis :: "real list \<Rightarrow> real list list \<Rightarrow> real list \<Rightarrow> real" where
  "mahalanobis feat cov_inv mean =
     (let diff = map2 (-) feat mean;
          diff_cov = map (\<lambda>j. sum_list (map2 (\<lambda>d row. d * row ! j) diff cov_inv))
                       [0..<length diff]
      in sqrt (sum_list (map2 (*) diff_cov diff)))"

definition flag_anomaly :: "real list list \<Rightarrow> real list \<Rightarrow> (real list \<times> int) \<Rightarrow> anomaly list" where
  "flag_anomaly cov_inv mean fp =
     (case fp of (feat, pos) \<Rightarrow>
        (let maha = mahalanobis feat cov_inv mean
         in if 3 < maha then
              [\<lparr>position = pos, mahalanobis_score = maha,
                severity = (if 5 < maha then ''high'' else ''medium''),
                feature_values =
                  [(''mean_lifespan'', PyFloat (feat ! 0)),
                   (''std_lifespan'', PyFloat (feat ! 1)),
                   (''max_lifespan'', PyFloat (feat ! 2)),
                   (''num_components'', PyInt (py_int_of_float (feat ! 3)))]\<rparr>]
            else []))"

definition detect_anomalies_tada ::
  "(real list list \<Rightarrow> real list list) \<Rightarrow> ripser_fn \<Rightarrow> (real list list \<Rightarrow> real list list)
   \<Rightarrow> (real list list \<Rightarrow> py_error + real list list)
   \<Rightarrow> (string \<times> real list) list \<Rightarrow> int \<Rightarrow> int \<Rightarrow> py_error + anomaly list" where
  "detect_anomalies_tada corrcoef ripser cov linalg_inv booking_channels window_size step =
     (let channel_names = map fst booking_channels;
          n_channels = length channel_names
      in if n_channels < 2 then Inr []
         else
           (let T = Min (set (map (\<lambda>(name, v). length v) booking_channels));
                data = column_stack
                         (map (\<lambda>(name, v). py_slice v 0 (int T)) booking_channels) T
            in err_bind (py_range 0 (int T - window_size) step) (\<lambda>starts.
               err_bind (map_err (window_features corrcoef ripser data n_channels window_size)
                           starts) (\<lambda>topo_features.
                 (let positions = map (\<lambda>start. start + window_size div 2) starts
                  in if length topo_features < 10 then Inr []
                     else
                       (let features_matrix = topo_features;
                            mean = map (\<lambda>j. np_mean (map (\<lambda>row. row ! j) features_matrix))
                                     [0..<4];
                            cov0 = cov (array_T features_matrix 4);
                            cov1 = map (\<lambda>i. map (\<lambda>j. cov0 ! i ! j
                                                     + (if i = j then 1 / 10 ^ 6 else 0))
                                             [0..<length (cov0 ! i)])
                                     [0..<length cov0]
                        in err_bind (linalg_inv cov1) (\<lambda>cov_inv.
                             Inr (concat (map (flag_anomaly cov_inv mean)
                                            (zip features_matrix positions))))))))))"

section \<open>Floor-plan analysis (layout.py)\<close>

text \<open>
  A furniture item is a dictionary; \<open>item["x"]\<close> and \<open>item["y"]\<close> raise \<open>KeyError\<close> when
  the key is missing, and width and depth default to \<open>2.0\<close>. GUDHI's alpha complex is
  external: \<open>alpha points k\<close> stands for \<open>persistence_intervals_in_dimension(k)\<close> of the
  simplex tree of \<open>AlphaComplex(points)\<close>.
\<close>

record furniture_item =
  item_x :: "real option"
  item_y :: "real option"
  item_width :: "real option"
  item_depth :: "real option"

record dead_space =
  birth_radius :: real
  death_radius :: real
  persistence :: real
  approx_diameter_ft :: real
  ds_severity :: string

record layout_result =
  dead_spaces :: "dead_space list"
  coverage_score :: real
  connectivity_score :: real
  persistence_diagram :: "(string \<times> diagram) list"
  num_furniture_points :: int

definition get_default :: "'a option \<Rightarrow> 'a \<Rightarrow> 'a" where
  "get_default v d = (case v of None \<Rightarrow> d | Some a \<Rightarrow> a)"

fun furniture_points :: "furniture_item list \<Rightarrow> py_error + (real \<times> real) list" where
  "furniture_points [] = Inr []"
| "furniture_points (item # rest) =
     (case item_x item of None \<Rightarrow> Inl KeyError
      | Some cx \<Rightarrow>
     (case item_y item of None \<Rightarrow> Inl KeyError
      | Some cy \<Rightarrow>
        (let w = get_default (item_width item) 2;
             d = get_default (item_depth item) 2
         in case furniture_points rest of
              Inl e \<Rightarrow> Inl e
            | Inr pts \<Rightarrow>
                Inr ([(cx, cy),
                      (cx - w / 2, cy - d / 2),
                      (cx + w / 2, cy - d / 2),
                      (cx - w / 2, cy + d / 2),
                      (cx + w / 2, cy + d / 2)] @ pts))))"

definition polygon_area :: "(real \<times> real) list \<Rightarrow> real" where
  "polygon_area vertices =
     (let n = length vertices
      in if n < 3 then 0
         else \<bar>fold (\<lambda>i area.
                      (let j = (i + 1) mod n
                       in area + fst (vertices ! i) * snd (vertices ! j)
                               - fst (vertices ! j) * snd (vertices ! i)))
                   [0..<n] 0\<bar> / 2)"

definition h1_dead_space :: "real \<Rightarrow> real \<times> death \<Rightarrow> dead_space list" where
  "h1_dead_space alpha_threshold bd =
     (case bd of
        (birth, Infinity) \<Rightarrow> []
      | (birth, Finite dth) \<Rightarrow>
          (let pers = dth - birth
           in if alpha_threshold < pers then
                [\<lparr>birth_radius = sqrt birth, death_radius = sqrt dth,
                  persistence = sqrt pers, approx_diameter_ft = 2 * sqrt dth,
                  ds_severity = (if alpha_threshold * 2 < pers then ''high'' else ''medium'')\<rparr>]
              else []))"

definition analyze_floor_plan_topology ::
  "((real \<times> real) list \<Rightarrow> nat \<Rightarrow> diagram) \<Rightarrow> furniture_item list \<Rightarrow> (real \<times> real) list
   \<Rightarrow> real \<Rightarrow> real \<Rightarrow> py_error + layout_result" where
  "analyze_floor_plan_topology alpha furniture_positions room_boundary
       dead_space_threshold_ft connectivity_threshold_ft =
     err_bind (furniture_points furniture_positions) (\<lambda>points_arr.
       if length points_arr < 4 then
         Inr \<lparr>dead_spaces = [], coverage_score = 0, connectivity_score = 0,
              persistence_diagram = [(''H0'', []), (''H1'', [])],
              num_furniture_points = int (length points_arr)\<rparr>
       else
         (let h0 = alpha points_arr 0;
              h1 = alpha points_arr 1;
              alpha_threshold = dead_space_threshold_ft\<^sup>2;
              spaces = concat (map (h1_dead_space alpha_threshold) h1);
              room_area = polygon_area room_boundary;
              covered_area = sum_list (map (\<lambda>item. get_default (item_width item) 2
                                                  * get_default (item_depth item) 2)
                                         furniture_positions);
              coverage = (if 0 < room_area then min (covered_area / room_area) 1 else 0);
              h0_lifespans = finite_lifespans h0;
              conn_threshold_sq = connectivity_threshold_ft\<^sup>2;
              long_lived_h0 = length (filter (\<lambda>l. conn_threshold_sq < l) h0_lifespans);
              connectivity = 1 / (1 + real long_lived_h0)
          in Inr \<lparr>dead_spaces = spaces, coverage_score = coverage,
                  connectivity_score = connectivity,
                  persistence_diagram = [(''H0'', h0), (''H1'', h1)],
                  num_furniture_points = int (length points_arr)\<rparr>))"


section \<open>Simplicial complexes of bookings (simplicial.py)\<close>

subsection \<open>Building the complex\<close>

text \<open>
  A booking is a dictionary with the keys \<open>venue_id\<close> and \<open>event_id\<close>, read with
  \<open>booking[...]\<close>, and the optional keys \<open>timeslot_id\<close> (default \<open>'default'\<close>) and
  \<open>vendor_ids\<close> (default \<open>[]\<close>), read with \<open>.get\<close>. Identifiers are strings. A
  simplex is a tuple of entity names, modelled as a list; \<open>sorted\<close> orders strings as
  Python does, character by character.
\<close>

record booking =
  venue_id :: string
  event_id :: string
  timeslot_id :: "string option"
  vendor_ids :: "string list option"

text \<open>\<open>itertools.combinations(xs, k)\<close>: the sublists of length \<open>k\<close>, in positional order.\<close>

fun combinations :: "'a list \<Rightarrow> nat \<Rightarrow> 'a list list" where
  "combinations xs 0 = [[]]"
| "combinations [] (Suc k) = []"
| "combinations (x # xs) (Suc k) = map ((#) x) (combinations xs k) @ combinations xs (Suc k)"

definition all_entities :: "booking \<Rightarrow> string list" where
  "all_entities b =
     [''venue:'' @ venue_id b, ''event:'' @ event_id b,
      ''timeslot:'' @ get_default (timeslot_id b) ''default'']
     @ map (\<lambda>vid. ''vendor:'' @ vid) (get_default (vendor_ids b) [])"

text \<open>
  \<open>simplices_by_dim\<close> is a \<open>defaultdict(list)\<close> from dimensions to lists of tuples:
  \<open>d[k].extend(xs)\<close> creates the key when it is missing. \<open>entities\<close> is a Python set;
  it is modelled as a list without repetitions, and so is each \<open>list(set(...))\<close>. The
  order in which Python iterates over a set is unspecified, and nothing proved below
  depends on the order chosen here.
\<close>

type_synonym complex = "(nat \<times> string list list) list"

definition dd_extend :: "complex \<Rightarrow> nat \<Rightarrow> string list list \<Rightarrow> complex" where
  "dd_extend d k xs = AList.update k ((case map_of d k of None \<Rightarrow> [] | Some l \<Rightarrow> l) @ xs) d"

fun booking_loop :: "booking list \<Rightarrow> string list \<Rightarrow> complex \<Rightarrow> string list \<times> complex" where
  "booking_loop [] entities sbd = (entities, sbd)"
| "booking_loop (b # rest) entities sbd =
     (let ents = all_entities b;
          entities' = fold List.insert ents entities;
          sbd1 = dd_extend sbd 1 (combinations ents 2);
          sbd2 = dd_extend sbd1 2 (combinations ents 3);
          sbd3 = (if 4 \<le> length ents then dd_extend sbd2 3 (combinations ents 4) else sbd2)
      in booking_loop rest entities' sbd3)"

definition dedup_simplices :: "complex \<Rightarrow> complex" where
  "dedup_simplices sbd = map (\<lambda>(k, simps). (k, remdups (map sort simps))) sbd"

definition booking_simplices :: "booking list \<Rightarrow> string list \<times> complex" where
  "booking_simplices bookings =
     (case booking_loop bookings [] [] of
        (entities, sbd) \<Rightarrow>
          (entities, AList.update 0 (map (\<lambda>e. [e]) entities) (dedup_simplices sbd)))"

subsection \<open>Betti numbers\<close>

text \<open>
  \<open>find\<close> is a \<open>while\<close> loop with path halving over the dictionary \<open>parent\<close>; it
  may run forever on a cyclic dictionary, so its model is a partial function: \<open>None\<close>
  is a call that does not return, \<open>Some (Inl e)\<close> one that raises and \<open>Some (Inr v)\<close>
  one that returns. It returns the root together with the updated dictionary.
\<close>

partial_function (option) uf_find ::
  "('a \<rightharpoonup> 'a) \<Rightarrow> 'a \<Rightarrow> (py_error + ('a \<times> ('a \<rightharpoonup> 'a))) option" where
  "uf_find parent x =
     (case parent x of
        None \<Rightarrow> Some (Inl KeyError)
      | Some px \<Rightarrow>
          if px \<noteq> x then
            (case parent px of
               None \<Rightarrow> Some (Inl KeyError)
             | Some ppx \<Rightarrow> uf_find (parent(x \<mapsto> ppx)) ppx)
          else Some (Inr (x, parent)))"

definition uf_union :: "('a \<rightharpoonup> 'a) \<Rightarrow> 'a \<Rightarrow> 'a \<Rightarrow> (py_error + ('a \<rightharpoonup> 'a)) option" where
  "uf_union parent a b =
     (case uf_find parent a of
        None \<Rightarrow> None
      | Some (Inl e) \<Rightarrow> Some (Inl e)
      | Some (Inr (ra, parent1)) \<Rightarrow>
          (case uf_find parent1 b of
             None \<Rightarrow> None
           | Some (Inl e) \<Rightarrow> Some (Inl e)
           | Some (Inr (rb, parent2)) \<Rightarrow>
               Some (Inr (if ra \<noteq> rb then parent2(ra \<mapsto> rb) else parent2))))"

fun edges_loop :: "'a list list \<Rightarrow> ('a \<rightharpoonup> 'a) \<Rightarrow> (py_error + ('a \<rightharpoonup> 'a)) option" where
  "edges_loop [] parent = Some (Inr parent)"
| "edges_loop (edge # rest) parent =
     (if length edge = 2 then
        (case uf_union parent (edge ! 0) (edge ! 1) of
           None \<Rightarrow> None
         | Some (Inl e) \<Rightarrow> Some (Inl e)
         | Some (Inr parent') \<Rightarrow> edges_loop rest parent')
      else edges_loop rest parent)"

text \<open>The generator \<open>find(v) for v in vertices\<close>: the roots found, in order.\<close>

fun roots_loop :: "'a list \<Rightarrow> ('a \<rightharpoonup> 'a) \<Rightarrow> (py_error + 'a list) option" where
  "roots_loop [] parent = Some (Inr [])"
| "roots_loop (v # rest) parent =
     (case uf_find parent v of
        None \<Rightarrow> None
      | Some (Inl e) \<Rightarrow> Some (Inl e)
      | Some (Inr (r, parent')) \<Rightarrow>
          (case roots_loop rest parent' of
             None \<Rightarrow> None
           | Some (Inl e) \<Rightarrow> Some (Inl e)
           | Some (Inr rs) \<Rightarrow> Some (Inr (r # rs))))"

text \<open>The branch \<open>k == 0\<close>: the number of components by union-find.\<close>

definition count_components :: "'a list list \<Rightarrow> 'a list list \<Rightarrow> (py_error + int) option" where
  "count_components k_simplices edges =
     (if list_ex (\<lambda>s. s = []) k_simplices then Some (Inl IndexError)
      else
        (let vertices = remdups (map (\<lambda>s. s ! 0) k_simplices);
             parent = map_of (map (\<lambda>v. (v, v)) vertices)
         in case edges_loop edges parent of
              None \<Rightarrow> None
            | Some (Inl e) \<Rightarrow> Some (Inl e)
            | Some (Inr parent') \<Rightarrow>
                (case roots_loop vertices parent' of
                   None \<Rightarrow> None
                 | Some (Inl e) \<Rightarrow> Some (Inl e)
                 | Some (Inr roots) \<Rightarrow> Some (Inr (int (length (remdups roots)))))))"

definition simplices_get :: "complex \<Rightarrow> nat \<Rightarrow> string list list" where
  "simplices_get sbd k = (case map_of sbd k of None \<Rightarrow> [] | Some l \<Rightarrow> l)"

definition beta_key :: "nat \<Rightarrow> string" where
  "beta_key k = ''beta_'' @ str_nat k"

definition betti_entry :: "complex \<Rightarrow> nat \<Rightarrow> (py_error + int) option" where
  "betti_entry sbd k =
     (let k_simplices = simplices_get sbd k
      in if k_simplices = [] then Some (Inr 0)
         else if k = 0 then count_components k_simplices (simplices_get sbd 1)
         else
           (let n_k = int (length k_simplices);
                n_k_plus_1 = int (length (simplices_get sbd (k + 1)));
                n_k_minus_1 = int (length (simplices_get sbd (k - 1)))
            in Some (Inr (max 0 (n_k - n_k_minus_1 - n_k_plus_1)))))"

fun betti_loop ::
  "complex \<Rightarrow> nat list \<Rightarrow> (string \<times> int) list \<Rightarrow> (py_error + (string \<times> int) list) option" where
  "betti_loop sbd [] betti = Some (Inr betti)"
| "betti_loop sbd (k # rest) betti =
     (case betti_entry sbd k of
        None \<Rightarrow> None
      | Some (Inl e) \<Rightarrow> Some (Inl e)
      | Some (Inr v) \<Rightarrow> betti_loop sbd rest (AList.update (beta_key k) v betti))"

definition compute_betti_numbers :: "complex \<Rightarrow> (py_error + (string \<times> int) list) option" where
  "compute_betti_numbers sbd =
     (let max_dim = (if sbd \<noteq> [] then Max (set (map fst sbd)) else 0)
      in betti_loop sbd [0..<max_dim + 1] [])"

text \<open>
  The result of \<open>build_booking_simplicial_complex\<close>, without its \<open>hodge_analysis\<close>
  entry: that entry is computed from the bookings and the simplex counts after the
  Betti numbers and does not change the other entries.
\<close>

record complex_result =
  simplices :: complex
  counts :: "(string \<times> int) list"
  num_entities :: int
  betti_numbers :: "(string \<times> int) list"

definition build_booking_simplicial_complex ::
  "booking list \<Rightarrow> (py_error + complex_result) option" where
  "build_booking_simplicial_complex bookings =
     (case booking_simplices bookings of
        (entities, sbd) \<Rightarrow>
          (case compute_betti_numbers sbd of
             None \<Rightarrow> None
           | Some (Inl e) \<Rightarrow> Some (Inl e)
           | Some (Inr betti) \<Rightarrow>
               Some (Inr \<lparr>simplices = sbd,
                          counts = map (\<lambda>(k, simps). (''dim_'' @ str_nat k, int (length simps))) sbd,
                          num_entities = int (length entities),
                          betti_numbers = betti\<rparr>)))"

section \<open>Properties of the persistence module\<close>

subsection \<open>Dictionary keys and the loop of compute\_persistence\<close>

text \<open>
  Distinct dimensions have distinct keys: the decimal digits of a number determine it.
  \<open>digits_value\<close> reads a digit string back and is used in the proofs only.
\<close>

definition digits_value :: "string \<Rightarrow> nat" where
  "digits_value s = foldl (\<lambda>a c. 10 * a + (of_char c - 48)) 0 s"

lemma digit_char_value: "d < 10 \<Longrightarrow> of_char (digit_char d) - 48 = (d::nat)"
  by (simp add: digit_char_def)

lemma digits_value_str_nat: "digits_value (str_nat n) = n"
proof (induction n rule: str_nat.induct)
  case (1 n)
  show ?case
  proof (cases "n < 10")
    case True
    then show ?thesis
      by (subst str_nat.simps) (simp add: digits_value_def digit_char_value)
  next
    case False
    then have "digits_value (str_nat (n div 10)) = n div 10" using 1 by simp
    then show ?thesis using False
      by (subst str_nat.simps) (simp add: digits_value_def digit_char_value)
  qed
qed

lemma hkey_inj: "hkey a = hkey b \<Longrightarrow> a = b"
  by (metis digits_value_str_nat hkey_def same_append_eq)

lemma hkey_distinct: "distinct ks \<Longrightarrow> distinct (map hkey ks)"
  by (simp add: distinct_map inj_on_def hkey_inj)

lemma update_fresh: "k \<notin> fst ` set al \<Longrightarrow> AList.update k v al = al @ [(k, v)]"
  by (induction al) auto

lemma fold_update_fresh:
  assumes "distinct (map f ks)" "f ` set ks \<inter> fst ` set al = {}"
  shows "fold (\<lambda>k. AList.update (f k) (g k)) ks al = al @ map (\<lambda>k. (f k, g k)) ks"
  using assms
proof (induction ks arbitrary: al)
  case Nil
  then show ?case by simp
next
  case (Cons k ks)
  have "AList.update (f k) (g k) al = al @ [(f k, g k)]"
    using Cons.prems by (intro update_fresh) auto
  moreover have "fold (\<lambda>k. AList.update (f k) (g k)) ks (al @ [(f k, g k)])
      = (al @ [(f k, g k)]) @ map (\<lambda>k. (f k, g k)) ks"
    using Cons.prems by (intro Cons.IH) auto
  ultimately show ?case by simp
qed

lemma map_of_keyed:
  assumes "k \<in> set ks" "\<And>a b. f a = f b \<Longrightarrow> a = b"
  shows "map_of (map (\<lambda>k. (f k, g k)) ks) (f k) = Some (g k)"
  using assms by (induction ks) auto

lemma persistence_loop_ok:
  assumes "\<forall>k \<in> set ks. k < length dgms"
  shows "persistence_loop dgms ks ds ss =
           Inr (fold (\<lambda>k. AList.update (hkey k) (dgms ! k)) ks ds,
                fold (\<lambda>k. AList.update (hkey k) (lifespan_stats (finite_lifespans (dgms ! k)))) ks ss)"
  using assms by (induction ks arbitrary: ds ss) (simp_all add: Let_def)

lemma persistence_loop_short:
  assumes "\<exists>k \<in> set ks. \<not> k < length dgms"
  shows "persistence_loop dgms ks ds ss = Inl IndexError"
  using assms by (induction ks arbitrary: ds ss) (auto simp: Let_def)

lemma compute_persistence_ok:
  assumes "nat (max_dim + 1) \<le> length (ripser dm \<lparr>maxdim = max_dim, distance_matrix = True,
                     thresh = threshold, n_perm = nperm\<rparr>)"
  shows "compute_persistence ripser dm max_dim threshold nperm =
     (let dgms = ripser dm \<lparr>maxdim = max_dim, distance_matrix = True,
                     thresh = threshold, n_perm = nperm\<rparr>
      in Inr \<lparr>diagrams = map (\<lambda>k. (hkey k, dgms ! k)) [0..<nat (max_dim + 1)],
            stats = map (\<lambda>k. (hkey k, lifespan_stats (finite_lifespans (dgms ! k))))
                      [0..<nat (max_dim + 1)],
            num_points = int (shape0 dm), method_name = None\<rparr>)"
proof -
  let ?dgms = "ripser dm \<lparr>maxdim = max_dim, distance_matrix = True,
                     thresh = threshold, n_perm = nperm\<rparr>"
  have "\<forall>k \<in> set [0..<nat (max_dim + 1)]. k < length ?dgms" using assms by auto
  then show ?thesis
    by (simp add: compute_persistence_def Let_def persistence_loop_ok
        fold_update_fresh hkey_distinct)
qed




subsection \<open>An example environment\<close>

text \<open>
  The concrete runs below need some Ripser, GUDHI and random generator.
  \<open>ripser_equidistant\<close> is what Ripser returns on a matrix whose off-diagonal entries
  all equal \<open>entry dm 0 1\<close>: of the points it works on (\<open>n_perm\<close> landmarks, or all),
  all but one merge at that distance when it is within the threshold, and one component
  never dies; beyond the threshold no two points merge; and no class of a higher
  dimension has a positive lifespan, so those diagrams are empty.
  \<open>gudhi_equidistant\<close> is the same for the intervals of GUDHI's simplex tree.
  \<open>equidistant n c\<close> is such a matrix, and \<open>choice_blocks\<close> is a generator whose
  \<open>i\<close>-th draw is the \<open>i\<close>-th block of consecutive indices. \<open>two_scale\<close> is a matrix
  of 50001 points in which the first 2000 are at distance \<open>1/2\<close> from each other and
  every other pair is at distance \<open>1/4\<close>, so that each block of 2000 consecutive
  points is equidistant.
\<close>

definition ripser_equidistant :: ripser_fn where
  "ripser_equidistant dm kw =
     map (\<lambda>k. if k = 0 then
                 (let pts = (case n_perm kw of None \<Rightarrow> shape0 dm | Some p \<Rightarrow> nat p)
                  in if (case thresh kw of None \<Rightarrow> True | Some t \<Rightarrow> entry dm 0 1 \<le> t)
                     then replicate (pts - 1) (0, Finite (entry dm 0 1)) @ [(0, Infinity)]
                     else replicate pts (0, Infinity))
               else [])
         [0..<nat (maxdim kw + 1)]"

definition gudhi_equidistant :: gudhi_fn where
  "gudhi_equidistant dm sparse max_dimension k =
     (if k = 0 then replicate (shape0 dm - 1) (0, Finite (entry dm 0 1)) @ [(0, Infinity)]
      else [])"

definition two_scale :: dist_matrix where
  "two_scale = \<lparr>shape0 = 50001,
                 entry = (\<lambda>i j. if i = j then 0
                                else if i < 2000 \<and> j < 2000 then 1 / 2 else 1 / 4)\<rparr>"

definition choice_blocks :: choice_fn where
  "choice_blocks i n sz = [i * sz..<i * sz + sz]"

definition equidistant :: "nat \<Rightarrow> real \<Rightarrow> dist_matrix" where
  "equidistant n c = \<lparr>shape0 = n, entry = (\<lambda>i j. if i = j then 0 else c)\<rparr>"

lemma map_of_stats_key:
  "k < m \<Longrightarrow> map_of (map (\<lambda>k. (hkey k, g k)) [0..<m]) (hkey k) = Some (g k)"
  by (rule map_of_keyed) (auto dest: hkey_inj)

lemma hkey_small: "hkey 0 = ''H0''" "hkey 1 = ''H1''" "hkey (Suc 0) = ''H1''" "hkey 2 = ''H2''"
  by code_simp+

lemma ripser_equidistant_length:
  "length (ripser_equidistant dm kw) = nat (maxdim kw + 1)"
  by (simp add: ripser_equidistant_def)

lemma ripser_equidistant_two:
  "1 / 2 \<le> t \<Longrightarrow> ripser_equidistant (equidistant 2 (1 / 2))
     \<lparr>maxdim = 1, distance_matrix = True, thresh = Some t, n_perm = None\<rparr>
   = [[(0, Finite (1 / 2)), (0, Infinity)], []]"
  by (simp add: ripser_equidistant_def equidistant_def upt_conv_Cons)

subsection \<open>An empty dimension is reported, not refused\<close>

text \<open>
  Modelled from the spec: the Vietoris-Rips complex of a distance matrix, which lives
  inside Ripser and of which the source holds no copy. Its \<open>k\<close>-simplices are the sets of
  \<open>k + 1\<close> points whose pairwise distances are all within the threshold (every set when
  there is no threshold). It only says which inputs have a dimension without simplices.
\<close>

definition rips_simplices :: "dist_matrix \<Rightarrow> real option \<Rightarrow> nat \<Rightarrow> nat list list" where
  "rips_simplices dm threshold k =
     filter (\<lambda>s. list_all (\<lambda>i. list_all (\<lambda>j. case threshold of None \<Rightarrow> True
                                                  | Some t \<Rightarrow> entry dm i j \<le> t) s) s)
       (combinations [0..<shape0 dm] (k + 1))"

lemma ripser_equidistant_apart:
  "t < 9 / 10 \<Longrightarrow> ripser_equidistant (equidistant 2 (9 / 10))
     \<lparr>maxdim = 1, distance_matrix = True, thresh = Some t, n_perm = None\<rparr>
   = [[(0, Infinity), (0, Infinity)], []]"
  by (simp add: ripser_equidistant_def equidistant_def upt_conv_Cons numeral_2_eq_2)

lemma rips_simplices_apart:
  "t < 9 / 10 \<Longrightarrow> rips_simplices (equidistant 2 (9 / 10)) (Some t) 1 = []"
  "t < 9 / 10 \<Longrightarrow> rips_simplices (equidistant 2 (9 / 10)) (Some t) (Suc 0) = []"
  "0 \<le> t \<Longrightarrow> rips_simplices (equidistant 2 (9 / 10)) (Some t) 0 = [[0], [1]]"
  by (simp_all add: rips_simplices_def equidistant_def upt_conv_Cons)

text \<open>
  Claim C5, as amended. The claim reads: when the complex has no simplices at a
  requested dimension the computation fails with EmptyComplexError. The complex lives
  inside Ripser; what \<open>compute_persistence\<close> sees of a dimension without simplices is
  an empty diagram. The source raises nothing there: whenever Ripser returns its
  \<open>max_dim + 1\<close> diagrams the call succeeds, and a dimension whose diagram is empty
  is reported with the empty diagram and the statistics \<open>{"count": 0}\<close>.
\<close>

theorem compute_persistence_empty_dimension:
  assumes "nat (max_dim + 1) \<le> length (ripser dm \<lparr>maxdim = max_dim, distance_matrix = True,
                     thresh = threshold, n_perm = nperm\<rparr>)"
    and "int k \<le> max_dim"
    and "ripser dm \<lparr>maxdim = max_dim, distance_matrix = True,
                     thresh = threshold, n_perm = nperm\<rparr> ! k = []"
  shows "\<exists>r. compute_persistence ripser dm max_dim threshold nperm = Inr r
           \<and> map_of (diagrams r) (hkey k) = Some []
           \<and> map_of (stats r) (hkey k) = Some [(''count'', PyInt 0)]"
proof -
  have "k < nat (max_dim + 1)" using assms(2) by simp
  then show ?thesis
    using assms(3) compute_persistence_ok[of max_dim ripser dm threshold nperm] assms(1)
    by (simp add: Let_def map_of_stats_key
        finite_lifespans_def lifespan_stats_def List.map_filter_simps)
qed

text \<open>
  The theorem at two points at distance \<open>9/10\<close> under the threshold \<open>8/10\<close> with
  \<open>max_dim = 1\<close>: the two points are farther apart than the threshold, so the complex
  has its two vertices and no edge, that is no simplex of dimension one.
\<close>

theorem compute_persistence_empty_dimension_witness:
  "nat (1 + 1) \<le> length (ripser_equidistant (equidistant 2 (9 / 10))
       \<lparr>maxdim = 1, distance_matrix = True, thresh = Some (8 / 10), n_perm = None\<rparr>)
   \<and> int 1 \<le> 1
   \<and> ripser_equidistant (equidistant 2 (9 / 10))
       \<lparr>maxdim = 1, distance_matrix = True, thresh = Some (8 / 10), n_perm = None\<rparr> ! 1 = []
   \<and> rips_simplices (equidistant 2 (9 / 10)) (Some (8 / 10)) 1 = []
   \<and> (\<exists>r. compute_persistence ripser_equidistant (equidistant 2 (9 / 10)) 1 (Some (8 / 10)) None = Inr r
           \<and> map_of (diagrams r) ''H1'' = Some []
           \<and> map_of (stats r) ''H1'' = Some [(''count'', PyInt 0)])"
  using compute_persistence_empty_dimension
          [of 1 ripser_equidistant "equidistant 2 (9 / 10)" "Some (8 / 10)" None 1]
  by (simp add: ripser_equidistant_apart rips_simplices_apart hkey_small)

text \<open>
  Counterexample to claim C5 as stated: two points at distance \<open>9/10\<close> under the
  threshold \<open>8/10\<close> with \<open>max_dim = 1\<close>. The complex has the vertices \<open>[0]\<close> and \<open>[1]\<close>
  and no simplex of dimension one, and the call returns a result whose \<open>H1\<close> entries are
  the empty diagram and \<open>{"count": 0}\<close>; it does not fail.
\<close>

theorem compute_persistence_no_error_counterexample:
  "rips_simplices (equidistant 2 (9 / 10)) (Some (8 / 10)) 0 = [[0], [1]]
   \<and> rips_simplices (equidistant 2 (9 / 10)) (Some (8 / 10)) 1 = []
   \<and> map_sum id (\<lambda>r. (map_of (diagrams r) ''H1'', map_of (stats r) ''H1''))
     (compute_persistence ripser_equidistant (equidistant 2 (9 / 10)) 1 (Some (8 / 10)) None)
   = Inr (Some [], Some [(''count'', PyInt 0)])"
  by (simp add: compute_persistence_def Let_def ripser_equidistant_apart rips_simplices_apart
       upt_conv_Cons hkey_small finite_lifespans_def lifespan_stats_def List.map_filter_simps)

subsection \<open>The fields of the statistics object\<close>

text \<open>
  Claim C8, as amended. For a dimension with at least one finite lifespan the
  statistics object of \<open>compute_persistence\<close> has exactly seven fields, in this
  order: count, mean, standard deviation, median, maximum, interquartile range and
  entropy of the finite lifespans, the entropy being
  \<open>- \<Sum> p\<^sub>i * ln (p\<^sub>i + 10\<^sup>-\<^sup>1\<^sup>0)\<close> with \<open>p\<^sub>i = l\<^sub>i / (\<Sum> l + 10\<^sup>-\<^sup>1\<^sup>0)\<close>. There is no range
  field: the range is computed by the vectorizer only.
\<close>

theorem compute_persistence_stats_fields:
  assumes "nat (max_dim + 1) \<le> length (ripser dm \<lparr>maxdim = max_dim, distance_matrix = True,
                     thresh = threshold, n_perm = nperm\<rparr>)"
    and "int k \<le> max_dim"
    and "ls = finite_lifespans (ripser dm \<lparr>maxdim = max_dim, distance_matrix = True,
                     thresh = threshold, n_perm = nperm\<rparr> ! k)"
    and "ls \<noteq> []"
  shows "\<exists>r. compute_persistence ripser dm max_dim threshold nperm = Inr r
           \<and> map_of (stats r) (hkey k) = Some
                [(''count'', PyInt (int (length ls))),
                 (''mean_lifespan'', PyFloat (np_mean ls)),
                 (''std_lifespan'', PyFloat (np_std ls)),
                 (''median_lifespan'', PyFloat (np_median ls)),
                 (''max_lifespan'', PyFloat (np_max ls)),
                 (''iqr_lifespan'', PyFloat (np_percentile ls 75 - np_percentile ls 25)),
                 (''entropy'', PyFloat (- (\<Sum>l\<leftarrow>ls. l / (sum_list ls + 1 / 10 ^ 10)
                                          * ln (l / (sum_list ls + 1 / 10 ^ 10) + 1 / 10 ^ 10))))]"
proof -
  have "k < nat (max_dim + 1)" using assms(2) by simp
  then show ?thesis
    using assms(3,4) compute_persistence_ok[of max_dim ripser dm threshold nperm] assms(1)
    by (simp add: Let_def map_of_stats_key lifespan_stats_def lifespan_entropy_def o_def)
qed

lemma finite_lifespans_two: "finite_lifespans [(0, Finite (1 / 2)), (0, Infinity)] = [1 / 2]"
  by (simp add: finite_lifespans_def List.map_filter_simps)

theorem compute_persistence_stats_fields_witness:
  "nat (1 + 1) \<le> length (ripser_equidistant (equidistant 2 (1 / 2))
       \<lparr>maxdim = 1, distance_matrix = True, thresh = Some (8 / 10), n_perm = None\<rparr>)
   \<and> int 0 \<le> 1
   \<and> [1 / 2] = finite_lifespans (ripser_equidistant (equidistant 2 (1 / 2))
       \<lparr>maxdim = 1, distance_matrix = True, thresh = Some (8 / 10), n_perm = None\<rparr> ! 0)
   \<and> (\<exists>r. compute_persistence ripser_equidistant (equidistant 2 (1 / 2)) 1 (Some (8 / 10)) None = Inr r
           \<and> map_option (map fst) (map_of (stats r) ''H0'') = Some
                [''count'', ''mean_lifespan'', ''std_lifespan'', ''median_lifespan'',
                 ''max_lifespan'', ''iqr_lifespan'', ''entropy''])"
  using compute_persistence_stats_fields
          [of 1 ripser_equidistant "equidistant 2 (1 / 2)" "Some (8 / 10)" None 0 "[1 / 2]"]
  by (auto simp add: ripser_equidistant_two hkey_small finite_lifespans_two)


text \<open>
  Counterexample to claim C8 as stated: the keys of the statistics object of a
  dimension with a finite lifespan are these seven, and none of them is a range.
\<close>

theorem compute_persistence_stats_no_range_counterexample:
  "map_sum id (\<lambda>r. map_option (map fst) (map_of (stats r) ''H0''))
     (compute_persistence ripser_equidistant (equidistant 2 (1 / 2)) 1 (Some (8 / 10)) None)
   = Inr (Some [''count'', ''mean_lifespan'', ''std_lifespan'', ''median_lifespan'',
                ''max_lifespan'', ''iqr_lifespan'', ''entropy''])"
  by (simp add: compute_persistence_def Let_def ripser_equidistant_two upt_conv_Cons hkey_small
       finite_lifespans_two lifespan_stats_def)



section \<open>Properties of the vectorizer\<close>

lemma dim_features_length: "length (dim_features dgms key) = 12"
  by (simp add: dim_features_def Let_def FEATURES_PER_DIM_def)

lemma dim_features_block:
  "dim_features dgms key =
     (let ls = finite_lifespans (case map_of dgms key of None \<Rightarrow> [] | Some d \<Rightarrow> d)
      in if ls = [] then replicate 12 0
         else [real (length ls), np_mean ls, np_std ls, np_median ls,
               np_percentile ls 75 - np_percentile ls 25, np_max ls,
               np_max ls - np_min ls, lifespan_entropy ls,
               np_percentile ls 10, np_percentile ls 25, np_percentile ls 75,
               np_percentile ls 90])"
  by (auto simp add: dim_features_def Let_def FEATURES_PER_DIM_def finite_lifespans_def
        List.map_filter_simps split: option.splits)

lemma finite_lifespans_rows:
  "finite_lifespans dgm = [x - b. (b, Finite x) \<leftarrow> dgm]"
  by (induction dgm) (auto simp: finite_lifespans_def List.map_filter_simps split: death.splits)

text \<open>
  Claim C7. The vector has length 36, twelve entries for each of \<open>H0\<close>, \<open>H1\<close>,
  \<open>H2\<close>. The finite lifespans of a dimension are death minus birth of the rows of
  its diagram whose death is finite. The block of a dimension whose diagram is missing,
  empty or without a finite lifespan is twelve zeros; otherwise it is count, mean,
  standard deviation, median, interquartile range, maximum, range, entropy and the
  10th, 25th, 75th and 90th percentiles of the finite lifespans, in this order.
\<close>

theorem persistence_statistics_layout:
  "length (persistence_statistics dgms) = 36
   \<and> (\<forall>i<3.
         let key = [''H0'', ''H1'', ''H2''] ! i;
             dgm = (case map_of dgms key of None \<Rightarrow> [] | Some d \<Rightarrow> d);
             ls = [death - birth. (birth, Finite death) \<leftarrow> dgm];
             block = take 12 (drop (12 * i) (persistence_statistics dgms))
         in (ls = [] \<longrightarrow> block = replicate 12 0)
          \<and> (ls \<noteq> [] \<longrightarrow>
               block = [real (length ls), np_mean ls, np_std ls, np_median ls,
                        np_percentile ls 75 - np_percentile ls 25, np_max ls,
                        np_max ls - np_min ls,
                        - (\<Sum>l\<leftarrow>ls. l / (sum_list ls + 1 / 10 ^ 10)
                                   * ln (l / (sum_list ls + 1 / 10 ^ 10) + 1 / 10 ^ 10)),
                        np_percentile ls 10, np_percentile ls 25, np_percentile ls 75,
                        np_percentile ls 90]))"
proof -
  have len: "length (persistence_statistics dgms) = 36"
    by (simp add: persistence_statistics_def dim_features_length)
  have b0: "take 12 (drop (12 * 0) (persistence_statistics dgms)) = dim_features dgms ''H0''"
    by (simp add: persistence_statistics_def dim_features_length)
  have b1: "take 12 (drop (12 * 1) (persistence_statistics dgms)) = dim_features dgms ''H1''"
    by (simp add: persistence_statistics_def dim_features_length)
  have b2: "take 12 (drop (12 * 2) (persistence_statistics dgms)) = dim_features dgms ''H2''"
    by (simp add: persistence_statistics_def dim_features_length)
  have blocks: "take 12 (drop (12 * i) (persistence_statistics dgms))
                  = dim_features dgms ([''H0'', ''H1'', ''H2''] ! i)" if "i < 3" for i
  proof -
    from that have "i = 0 \<or> i = 1 \<or> i = 2" by auto
    then show ?thesis using b0 b1 b2 by auto
  qed
  show ?thesis
    unfolding Let_def finite_lifespans_rows[symmetric]
    by (intro conjI allI impI len)
       (simp_all add: blocks dim_features_block Let_def lifespan_entropy_def o_def)
qed

text \<open>
  A diagram set whose \<open>H0\<close> has two finite rows with positive births, \<open>(1, 2)\<close> and
  \<open>(2, 5)\<close>, and one infinite row, with an empty \<open>H1\<close> and no \<open>H2\<close>: the lifespans
  are \<open>1\<close> and \<open>3\<close>, the deaths \<open>2\<close> and \<open>5\<close>.
\<close>

definition shifted_diagrams :: "(string \<times> diagram) list" where
  "shifted_diagrams = [(''H0'', [(1, Finite 2), (2, Finite 5), (0, Infinity)]), (''H1'', [])]"

theorem persistence_statistics_layout_witness:
  "length (persistence_statistics shifted_diagrams) = 36
   \<and> take 12 (drop 12 (persistence_statistics shifted_diagrams)) = replicate 12 0
   \<and> take 12 (drop 24 (persistence_statistics shifted_diagrams)) = replicate 12 0
   \<and> take 7 (persistence_statistics shifted_diagrams) = [2, 2, 1, 2, 1, 3, 2]
   \<and> take 4 (drop 8 (persistence_statistics shifted_diagrams)) = [12 / 10, 15 / 10, 25 / 10, 28 / 10]"
proof -
  have ls0: "[death - birth. (birth, Finite death) \<leftarrow> [(1, Finite 2), (2, Finite 5), (0, Infinity)]]
               = [1, 3 :: real]"
    by simp
  have vals: "np_mean [1, 3] = 2" "np_std [1, 3] = 1" "np_median [1, 3] = 2"
    "np_percentile [1, 3] 75 = 25 / 10" "np_percentile [1, 3] 25 = 15 / 10"
    "np_percentile [1, 3] 10 = 12 / 10" "np_percentile [1, 3] 90 = 28 / 10"
    "np_max [1, 3] = 3" "np_min [1, 3] = 1"
    by (simp_all add: np_mean_def np_std_def np_median_def np_percentile_def np_max_def
          np_min_def Let_def)
  note T = persistence_statistics_layout [of shifted_diagrams]
  from T have len: "length (persistence_statistics shifted_diagrams) = 36" by simp
  note T0 = persistence_statistics_layout [of shifted_diagrams, THEN conjunct2, rule_format, of 0]
  note T1 = persistence_statistics_layout [of shifted_diagrams, THEN conjunct2, rule_format, of 1]
  note T2 = persistence_statistics_layout [of shifted_diagrams, THEN conjunct2, rule_format, of 2]
  from T0 have "take 12 (drop (12 * 0) (persistence_statistics shifted_diagrams))
      = [2, 2, 1, 2, 25 / 10 - 15 / 10, 3, 3 - 1,
         - (\<Sum>l\<leftarrow>[1, 3]. l / (sum_list [1, 3] + 1 / 10 ^ 10)
                                   * ln (l / (sum_list [1, 3] + 1 / 10 ^ 10) + 1 / 10 ^ 10)),
         12 / 10, 15 / 10, 25 / 10, 28 / 10]"
    unfolding Let_def by (simp add: shifted_diagrams_def vals)
  then have b0: "take 12 (persistence_statistics shifted_diagrams)
      = [2, 2, 1, 2, 1, 3, 2,
         - (\<Sum>l\<leftarrow>[1, 3]. l / (sum_list [1, 3] + 1 / 10 ^ 10)
                                   * ln (l / (sum_list [1, 3] + 1 / 10 ^ 10) + 1 / 10 ^ 10)),
         12 / 10, 15 / 10, 25 / 10, 28 / 10]" by simp
  have t7: "take 7 (persistence_statistics shifted_diagrams) = [2, 2, 1, 2, 1, 3, 2]"
    using arg_cong[OF b0, of "take 7"] by (simp add: min_def)
  have t4: "take 4 (drop 8 (persistence_statistics shifted_diagrams)) = [12 / 10, 15 / 10, 25 / 10, 28 / 10]"
    using arg_cong[OF b0, of "\<lambda>xs. take 4 (drop 8 xs)"] by (simp add: drop_take)
  from T1 have b1: "take 12 (drop (12 * 1) (persistence_statistics shifted_diagrams)) = replicate 12 0"
    by (simp add: Let_def shifted_diagrams_def)
  from T2 have b2: "take 12 (drop (12 * 2) (persistence_statistics shifted_diagrams)) = replicate 12 0"
    by (simp add: Let_def shifted_diagrams_def)
  show ?thesis using len t7 t4 b1 b2 by simp
qed


subsection \<open>The strategy is chosen from the point count\<close>

lemma gudhi_loop_fold:
  "gudhi_loop intervals_in ks ds ss =
     (fold (\<lambda>k. AList.update (hkey k) (intervals_in k)) ks ds,
      fold (\<lambda>k. AList.update (hkey k) (lifespan_stats (finite_lifespans (intervals_in k)))) ks ss)"
  by (induction ks arbitrary: ds ss)
     (simp_all add: Let_def finite_lifespans_def lifespan_stats_def List.map_filter_simps)

lemma gudhi_sparse_persistence_eq:
  "gudhi_sparse_persistence gudhi dm max_dim =
     \<lparr>diagrams = map (\<lambda>k. (hkey k, gudhi dm (3 / 10) (max_dim + 1) k)) [0..<nat (max_dim + 1)],
      stats = map (\<lambda>k. (hkey k, lifespan_stats (finite_lifespans (gudhi dm (3 / 10) (max_dim + 1) k))))
                [0..<nat (max_dim + 1)],
      num_points = int (shape0 dm), method_name = None\<rparr>"
  by (simp add: gudhi_sparse_persistence_def gudhi_loop_fold fold_update_fresh hkey_distinct)

text \<open>
  Claim C1. Ripser is assumed to return one diagram per dimension up to \<open>maxdim\<close>.
  For \<open>N \<le> 3000\<close> the result holds, for each requested dimension, the diagram and
  statistics of one Ripser run on the whole matrix with \<open>maxdim = max_dim\<close> and
  threshold \<open>0.8\<close>. For \<open>3001 \<le> N \<le> 10000\<close> it holds \<open>H0\<close> and \<open>H1\<close> of a run
  with \<open>maxdim = 1\<close> and threshold \<open>0.8\<close>, and \<open>H2\<close> of a run with threshold
  \<open>0.5\<close> on \<open>n_perm = min(N, 2000)\<close> greedy-permutation landmarks. For
  \<open>10001 \<le> N \<le> 50000\<close> it holds, for each requested dimension, the intervals and
  statistics of GUDHI's sparse Rips complex with \<open>sparse = 0.3\<close>.
\<close>

theorem compute_persistence_scaled_strategy:
  assumes "\<forall>kw. length (ripser dm kw) = nat (maxdim kw + 1)"
  shows "(shape0 dm \<le> 3000 \<longrightarrow>
            (let dgms = ripser dm \<lparr>maxdim = max_dim, distance_matrix = True,
                                    thresh = Some (8 / 10), n_perm = None\<rparr>
             in compute_persistence_scaled ripser gudhi choice dm max_dim =
                  Inr \<lparr>diagrams = map (\<lambda>k. (hkey k, dgms ! k)) [0..<nat (max_dim + 1)],
                       stats = map (\<lambda>k. (hkey k, lifespan_stats (finite_lifespans (dgms ! k))))
                                 [0..<nat (max_dim + 1)],
                       num_points = int (shape0 dm), method_name = None\<rparr>))
       \<and> (3001 \<le> shape0 dm \<and> shape0 dm \<le> 10000 \<longrightarrow>
            (let dgms01 = ripser dm \<lparr>maxdim = 1, distance_matrix = True,
                                      thresh = Some (8 / 10), n_perm = None\<rparr>;
                 dgms2 = ripser dm \<lparr>maxdim = 2, distance_matrix = True,
                                     thresh = Some (5 / 10),
                                     n_perm = Some (min (int (shape0 dm)) 2000)\<rparr>
             in compute_persistence_scaled ripser gudhi choice dm max_dim =
                  Inr \<lparr>diagrams = [(''H0'', dgms01 ! 0), (''H1'', dgms01 ! 1), (''H2'', dgms2 ! 2)],
                       stats = [(''H0'', lifespan_stats (finite_lifespans (dgms01 ! 0))),
                                (''H1'', lifespan_stats (finite_lifespans (dgms01 ! 1))),
                                (''H2'', lifespan_stats (finite_lifespans (dgms2 ! 2)))],
                       num_points = int (shape0 dm), method_name = None\<rparr>))
       \<and> (10001 \<le> shape0 dm \<and> shape0 dm \<le> 50000 \<longrightarrow>
            compute_persistence_scaled ripser gudhi choice dm max_dim =
              Inr \<lparr>diagrams = map (\<lambda>k. (hkey k, gudhi dm (3 / 10) (max_dim + 1) k))
                                [0..<nat (max_dim + 1)],
                   stats = map (\<lambda>k. (hkey k, lifespan_stats
                                   (finite_lifespans (gudhi dm (3 / 10) (max_dim + 1) k))))
                             [0..<nat (max_dim + 1)],
                   num_points = int (shape0 dm), method_name = None\<rparr>)"
proof (intro conjI impI)
  assume "shape0 dm \<le> 3000"
  then show "let dgms = ripser dm \<lparr>maxdim = max_dim, distance_matrix = True,
                                    thresh = Some (8 / 10), n_perm = None\<rparr>
             in compute_persistence_scaled ripser gudhi choice dm max_dim =
                  Inr \<lparr>diagrams = map (\<lambda>k. (hkey k, dgms ! k)) [0..<nat (max_dim + 1)],
                       stats = map (\<lambda>k. (hkey k, lifespan_stats (finite_lifespans (dgms ! k))))
                                 [0..<nat (max_dim + 1)],
                       num_points = int (shape0 dm), method_name = None\<rparr>"
    using assms compute_persistence_ok[of max_dim ripser dm "Some (8 / 10)" None]
    by (simp add: compute_persistence_scaled_def Let_def)
next
  assume n: "3001 \<le> shape0 dm \<and> shape0 dm \<le> 10000"
  have two: "[0..<nat (1 + 1)] = [0, 1]" "[0..<nat (2 + 1)] = [0, 1, 2]"
    by (simp_all add: upt_conv_Cons)
  have r01: "compute_persistence ripser dm 1 (Some (8 / 10)) None =
      (let dgms = ripser dm \<lparr>maxdim = 1, distance_matrix = True, thresh = Some (8 / 10), n_perm = None\<rparr>
       in Inr \<lparr>diagrams = [(''H0'', dgms ! 0), (''H1'', dgms ! 1)],
               stats = [(''H0'', lifespan_stats (finite_lifespans (dgms ! 0))),
                        (''H1'', lifespan_stats (finite_lifespans (dgms ! 1)))],
               num_points = int (shape0 dm), method_name = None\<rparr>)"
    using assms compute_persistence_ok[of 1 ripser dm "Some (8 / 10)" None]
    unfolding two by (simp add: Let_def hkey_small)
  have r2: "compute_persistence ripser dm 2 (Some (5 / 10)) (Some (min (int (shape0 dm)) 2000)) =
      (let dgms = ripser dm \<lparr>maxdim = 2, distance_matrix = True, thresh = Some (5 / 10),
                             n_perm = Some (min (int (shape0 dm)) 2000)\<rparr>
       in Inr \<lparr>diagrams = [(''H0'', dgms ! 0), (''H1'', dgms ! 1), (''H2'', dgms ! 2)],
               stats = [(''H0'', lifespan_stats (finite_lifespans (dgms ! 0))),
                        (''H1'', lifespan_stats (finite_lifespans (dgms ! 1))),
                        (''H2'', lifespan_stats (finite_lifespans (dgms ! 2)))],
               num_points = int (shape0 dm), method_name = None\<rparr>)"
    using assms compute_persistence_ok[of 2 ripser dm "Some (5 / 10)" "Some (min (int (shape0 dm)) 2000)"]
    unfolding two by (simp add: Let_def hkey_small)
  show "let dgms01 = ripser dm \<lparr>maxdim = 1, distance_matrix = True,
                                      thresh = Some (8 / 10), n_perm = None\<rparr>;
                 dgms2 = ripser dm \<lparr>maxdim = 2, distance_matrix = True,
                                     thresh = Some (5 / 10),
                                     n_perm = Some (min (int (shape0 dm)) 2000)\<rparr>
             in compute_persistence_scaled ripser gudhi choice dm max_dim =
                  Inr \<lparr>diagrams = [(''H0'', dgms01 ! 0), (''H1'', dgms01 ! 1), (''H2'', dgms2 ! 2)],
                       stats = [(''H0'', lifespan_stats (finite_lifespans (dgms01 ! 0))),
                                (''H1'', lifespan_stats (finite_lifespans (dgms01 ! 1))),
                                (''H2'', lifespan_stats (finite_lifespans (dgms2 ! 2)))],
                       num_points = int (shape0 dm), method_name = None\<rparr>"
  proof -
    have "compute_persistence_scaled ripser gudhi choice dm max_dim =
       err_bind (compute_persistence ripser dm 1 (Some (8 / 10)) None) (\<lambda>result_h01.
           err_bind (compute_persistence ripser dm 2 (Some (5 / 10))
                       (Some (min (int (shape0 dm)) 2000))) (\<lambda>result_h2.
           err_bind (dict_get (diagrams result_h2) ''H2'') (\<lambda>d2.
           err_bind (dict_get (stats result_h2) ''H2'') (\<lambda>s2.
             Inr (result_h01\<lparr>diagrams := AList.update ''H2'' d2 (diagrams result_h01),
                              stats := AList.update ''H2'' s2 (stats result_h01)\<rparr>)))))"
      using n unfolding compute_persistence_scaled_def Let_def by simp
    then show ?thesis
      unfolding r01 r2 by (simp add: Let_def err_bind_def dict_get_def)
  qed
next
  assume "10001 \<le> shape0 dm \<and> shape0 dm \<le> 50000"
  then show "compute_persistence_scaled ripser gudhi choice dm max_dim =
              Inr \<lparr>diagrams = map (\<lambda>k. (hkey k, gudhi dm (3 / 10) (max_dim + 1) k))
                                [0..<nat (max_dim + 1)],
                   stats = map (\<lambda>k. (hkey k, lifespan_stats
                                   (finite_lifespans (gudhi dm (3 / 10) (max_dim + 1) k))))
                             [0..<nat (max_dim + 1)],
                   num_points = int (shape0 dm), method_name = None\<rparr>"
    by (simp add: compute_persistence_scaled_def Let_def gudhi_sparse_persistence_eq)
qed




lemma ripser_equidistant_eval:
  "ripser_equidistant (equidistant n c) \<lparr>maxdim = m, distance_matrix = b, thresh = Some t, n_perm = p\<rparr>
   = map (\<lambda>k. if k = 0 then
                 (let pts = (case p of None \<Rightarrow> n | Some q \<Rightarrow> nat q)
                  in if c \<le> t
                     then replicate (pts - 1) (0, Finite c) @ [(0, Infinity)]
                     else replicate pts (0, Infinity))
               else [])
         [0..<nat (m + 1)]"
  by (simp add: ripser_equidistant_def equidistant_def Let_def split: option.splits)

theorem compute_persistence_scaled_strategy_witness:
  "(\<forall>kw. length (ripser_equidistant (equidistant 2 (1 / 2)) kw) = nat (maxdim kw + 1))
   \<and> shape0 (equidistant 2 (1 / 2)) \<le> 3000
   \<and> map_sum id diagrams
        (compute_persistence_scaled ripser_equidistant gudhi_equidistant choice_blocks
           (equidistant 2 (1 / 2)) 1)
       = Inr [(''H0'', [(0, Finite (1 / 2)), (0, Infinity)]), (''H1'', [])]
   \<and> (\<forall>kw. length (ripser_equidistant (equidistant 5000 (1 / 2)) kw) = nat (maxdim kw + 1))
   \<and> 3001 \<le> shape0 (equidistant 5000 (1 / 2)) \<and> shape0 (equidistant 5000 (1 / 2)) \<le> 10000
   \<and> map_sum id diagrams
        (compute_persistence_scaled ripser_equidistant gudhi_equidistant choice_blocks
           (equidistant 5000 (1 / 2)) 2)
       = Inr [(''H0'', replicate 4999 (0, Finite (1 / 2)) @ [(0, Infinity)]), (''H1'', []),
              (''H2'', [])]
   \<and> 10001 \<le> shape0 (equidistant 20000 (1 / 2)) \<and> shape0 (equidistant 20000 (1 / 2)) \<le> 50000
   \<and> map_sum id diagrams
        (compute_persistence_scaled ripser_equidistant gudhi_equidistant choice_blocks
           (equidistant 20000 (1 / 2)) 1)
       = Inr [(''H0'', replicate 19999 (0, Finite (1 / 2)) @ [(0, Infinity)]), (''H1'', [])]"
proof -
  have two: "[0..<nat (1 + 1)] = [0, 1]" "[0..<nat (2 + 1)] = [0, 1, 2]"
    by (simp_all add: upt_conv_Cons)
  have a: "map_sum id diagrams
        (compute_persistence_scaled ripser_equidistant gudhi_equidistant choice_blocks
           (equidistant 2 (1 / 2)) 1)
       = Inr [(''H0'', [(0, Finite (1 / 2)), (0, Infinity)]), (''H1'', [])]"
    using compute_persistence_scaled_strategy
            [of ripser_equidistant "equidistant 2 (1 / 2)" 1 gudhi_equidistant choice_blocks]
    unfolding ripser_equidistant_eval two
    by (simp add: ripser_equidistant_length Let_def hkey_small equidistant_def)
  have b: "map_sum id diagrams
        (compute_persistence_scaled ripser_equidistant gudhi_equidistant choice_blocks
           (equidistant 5000 (1 / 2)) 2)
       = Inr [(''H0'', replicate 4999 (0, Finite (1 / 2)) @ [(0, Infinity)]), (''H1'', []),
              (''H2'', [])]"
    using compute_persistence_scaled_strategy
            [of ripser_equidistant "equidistant 5000 (1 / 2)" 2 gudhi_equidistant choice_blocks]
    unfolding ripser_equidistant_eval two
    by (simp add: ripser_equidistant_length Let_def hkey_small equidistant_def)
  have c: "map_sum id diagrams
        (compute_persistence_scaled ripser_equidistant gudhi_equidistant choice_blocks
           (equidistant 20000 (1 / 2)) 1)
       = Inr [(''H0'', replicate 19999 (0, Finite (1 / 2)) @ [(0, Infinity)]), (''H1'', [])]"
    using compute_persistence_scaled_strategy
            [of ripser_equidistant "equidistant 20000 (1 / 2)" 1 gudhi_equidistant choice_blocks]
    unfolding two
    by (simp add: ripser_equidistant_length Let_def hkey_small equidistant_def gudhi_equidistant_def)
  show ?thesis using a b c by (simp add: ripser_equidistant_length equidistant_def)
qed




subsection \<open>The multiple-subsample path, loop by loop\<close>

lemma update_keyed:
  assumes "k \<in> set ks" "distinct ks"
  shows "AList.update (hkey k) v (map (\<lambda>j. (hkey j, A j)) ks) = map (\<lambda>j. (hkey j, (A(k := v)) j)) ks"
  using assms
proof (induction ks)
  case Nil
  then show ?case by simp
next
  case (Cons a ks)
  show ?case
  proof (cases "a = k")
    case True
    then have "k \<notin> set ks" using Cons.prems by simp
    then have "map (\<lambda>j. (hkey j, (A(k := v)) j)) ks = map (\<lambda>j. (hkey j, A j)) ks"
      by (intro map_cong) auto
    then show ?thesis using True by simp
  next
    case False
    then show ?thesis using Cons by (auto dest: hkey_inj)
  qed
qed

lemma map_of_keyed_hkey:
  "k \<in> set ks \<Longrightarrow> map_of (map (\<lambda>j. (hkey j, g j)) ks) (hkey k) = Some (g k)"
  by (rule map_of_keyed) (auto dest: hkey_inj)

lemma lifespan_stats_count:
  "map_of (lifespan_stats ls) ''count'' = Some (PyInt (int (length ls)))"
  by (simp add: lifespan_stats_def)

lemma collect_loop_ok:
  assumes "set ks \<subseteq> set dims" "distinct dims" "distinct ks"
  shows "collect_loop (map (\<lambda>j. (hkey j, lifespan_stats (L j))) dims) ks
           (map (\<lambda>j. (hkey j, A j)) dims)
         = Inr (map (\<lambda>j. (hkey j, if j \<in> set ks \<and> L j \<noteq> []
                                      then A j @ [lifespan_stats (L j)] else A j)) dims)"
  using assms
proof (induction ks arbitrary: A)
  case Nil
  then show ?case by simp
next
  case (Cons k ks)
  have kin: "k \<in> set dims" using Cons.prems by simp
  have rest: "set ks \<subseteq> set dims" "distinct ks" "k \<notin> set ks" using Cons.prems by auto
  show ?case
  proof (cases "L k = []")
    case True
    have "collect_loop (map (\<lambda>j. (hkey j, lifespan_stats (L j))) dims) (k # ks)
           (map (\<lambda>j. (hkey j, A j)) dims)
        = collect_loop (map (\<lambda>j. (hkey j, lifespan_stats (L j))) dims) ks
           (map (\<lambda>j. (hkey j, A j)) dims)"
      using True kin
      by (simp add: Let_def err_bind_def dict_get_def map_of_keyed_hkey lifespan_stats_count)
    also have "\<dots> = Inr (map (\<lambda>j. (hkey j, if j \<in> set ks \<and> L j \<noteq> []
                                      then A j @ [lifespan_stats (L j)] else A j)) dims)"
      using Cons.IH[OF rest(1) Cons.prems(2) rest(2)] .
    also have "\<dots> = Inr (map (\<lambda>j. (hkey j, if j \<in> set (k # ks) \<and> L j \<noteq> []
                                      then A j @ [lifespan_stats (L j)] else A j)) dims)"
      using True by auto
    finally show ?thesis .
  next
    case False
    let ?A1 = "A(k := A k @ [lifespan_stats (L k)])"
    have "collect_loop (map (\<lambda>j. (hkey j, lifespan_stats (L j))) dims) (k # ks)
           (map (\<lambda>j. (hkey j, A j)) dims)
        = collect_loop (map (\<lambda>j. (hkey j, lifespan_stats (L j))) dims) ks
           (map (\<lambda>j. (hkey j, ?A1 j)) dims)"
      using False kin Cons.prems(2)
      by (simp add: Let_def err_bind_def dict_get_def map_of_keyed_hkey lifespan_stats_count
            update_keyed)
    also have "\<dots> = Inr (map (\<lambda>j. (hkey j, if j \<in> set ks \<and> L j \<noteq> []
                                      then ?A1 j @ [lifespan_stats (L j)] else ?A1 j)) dims)"
      using Cons.IH[OF rest(1) Cons.prems(2) rest(2)] .
    also have "\<dots> = Inr (map (\<lambda>j. (hkey j, if j \<in> set (k # ks) \<and> L j \<noteq> []
                                      then A j @ [lifespan_stats (L j)] else A j)) dims)"
      using False rest(3) by auto
    finally show ?thesis .
  qed
qed

text \<open>
  The finite lifespans of dimension \<open>k\<close> in the \<open>i\<close>-th subsample: those of the
  diagram that Ripser returns for the sub-matrix of the \<open>i\<close>-th draw.
\<close>

definition draw_lifespans ::
  "ripser_fn \<Rightarrow> choice_fn \<Rightarrow> dist_matrix \<Rightarrow> int \<Rightarrow> int \<Rightarrow> nat \<Rightarrow> nat \<Rightarrow> real list" where
  "draw_lifespans ripser choice dm max_dim subsample_size i k =
     (let indices = choice i (shape0 dm) (nat (min subsample_size (int (shape0 dm))));
          sub_matrix = \<lparr>shape0 = length indices,
                         entry = (\<lambda>a b. entry dm (indices ! a) (indices ! b))\<rparr>
      in finite_lifespans
           (ripser sub_matrix \<lparr>maxdim = max_dim, distance_matrix = True,
                                thresh = Some (8 / 10), n_perm = None\<rparr> ! k))"

lemma draw_stats_ok:
  assumes "\<forall>m kw. length (ripser m kw) = nat (maxdim kw + 1)"
    and "0 \<le> subsample_size"
    and "\<forall>j \<in> set (choice i (shape0 dm) (nat (min subsample_size (int (shape0 dm))))). j < shape0 dm"
  shows "draw_stats ripser choice dm max_dim subsample_size i =
           Inr (map (\<lambda>k. (hkey k, lifespan_stats
                              (draw_lifespans ripser choice dm max_dim subsample_size i k)))
                  [0..<nat (max_dim + 1)])"
proof -
  let ?idx = "choice i (shape0 dm) (nat (min subsample_size (int (shape0 dm))))"
  let ?sub = "\<lparr>shape0 = length ?idx, entry = (\<lambda>a b. entry dm (?idx ! a) (?idx ! b))\<rparr>"
  have ix: "np_ix dm ?idx = Inr ?sub"
    using assms(3) by (simp add: np_ix_def list_all_iff)
  have cp: "compute_persistence ripser ?sub max_dim (Some (8 / 10)) None =
     (let dgms = ripser ?sub \<lparr>maxdim = max_dim, distance_matrix = True,
                     thresh = Some (8 / 10), n_perm = None\<rparr>
      in Inr \<lparr>diagrams = map (\<lambda>k. (hkey k, dgms ! k)) [0..<nat (max_dim + 1)],
            stats = map (\<lambda>k. (hkey k, lifespan_stats (finite_lifespans (dgms ! k))))
                      [0..<nat (max_dim + 1)],
            num_points = int (shape0 ?sub), method_name = None\<rparr>)"
    using assms(1) by (intro compute_persistence_ok) simp
  have "\<not> min subsample_size (int (shape0 dm)) < 0" using assms(2) by simp
  then show ?thesis
    unfolding draw_stats_def Let_def
    by (simp only: if_False ix cp err_bind_def sum.case Let_def draw_lifespans_def
          persistence_result.simps)
qed

lemma subsample_loop_ok:
  assumes "\<forall>m kw. length (ripser m kw) = nat (maxdim kw + 1)"
    and "0 \<le> subsample_size"
    and "\<forall>i \<in> set draws. \<forall>j \<in> set (choice i (shape0 dm) (nat (min subsample_size (int (shape0 dm))))).
            j < shape0 dm"
  shows "subsample_loop ripser choice dm max_dim subsample_size draws
           (map (\<lambda>k. (hkey k, A k)) [0..<nat (max_dim + 1)])
         = Inr (map (\<lambda>k. (hkey k, A k @ map lifespan_stats
                     (filter (\<lambda>ls. ls \<noteq> [])
                        (map (\<lambda>i. draw_lifespans ripser choice dm max_dim subsample_size i k) draws))))
                  [0..<nat (max_dim + 1)])"
  using assms(3)
proof (induction draws arbitrary: A)
  case Nil
  then show ?case by simp
next
  case (Cons i draws)
  let ?L = "draw_lifespans ripser choice dm max_dim subsample_size"
  let ?dims = "[0..<nat (max_dim + 1)]"
  let ?A1 = "\<lambda>k. if k \<in> set ?dims \<and> ?L i k \<noteq> [] then A k @ [lifespan_stats (?L i k)] else A k"
  have ds: "draw_stats ripser choice dm max_dim subsample_size i =
           Inr (map (\<lambda>k. (hkey k, lifespan_stats (?L i k))) ?dims)"
    using Cons.prems by (intro draw_stats_ok assms(1,2)) simp
  have cl: "collect_loop (map (\<lambda>k. (hkey k, lifespan_stats (?L i k))) ?dims) ?dims
              (map (\<lambda>k. (hkey k, A k)) ?dims) = Inr (map (\<lambda>k. (hkey k, ?A1 k)) ?dims)"
    by (rule collect_loop_ok) simp_all
  have ih: "subsample_loop ripser choice dm max_dim subsample_size draws
              (map (\<lambda>k. (hkey k, ?A1 k)) ?dims)
            = Inr (map (\<lambda>k. (hkey k, ?A1 k @ map lifespan_stats
                     (filter (\<lambda>ls. ls \<noteq> []) (map (\<lambda>i. ?L i k) draws)))) ?dims)"
    using Cons.prems by (intro Cons.IH) simp
  have "subsample_loop ripser choice dm max_dim subsample_size (i # draws)
           (map (\<lambda>k. (hkey k, A k)) ?dims)
        = Inr (map (\<lambda>k. (hkey k, ?A1 k @ map lifespan_stats
                     (filter (\<lambda>ls. ls \<noteq> []) (map (\<lambda>i. ?L i k) draws)))) ?dims)"
    by (simp only: subsample_loop.simps ds cl ih err_bind_def sum.case)
  also have "\<dots> = Inr (map (\<lambda>k. (hkey k, A k @ map lifespan_stats
                     (filter (\<lambda>ls. ls \<noteq> []) (map (\<lambda>i. ?L i k) (i # draws))))) ?dims)"
    by auto
  finally show ?case .
qed


lemma field_values_ok:
  assumes "\<forall>l \<in> set Ls. map_of (lifespan_stats l) name = Some (g l)"
  shows "field_values (map lifespan_stats Ls) name = Inr (map (\<lambda>l. pyval_real (g l)) Ls)"
  using assms unfolding field_values_def
  by (induction Ls) (simp_all add: err_bind_def dict_get_def)

lemma aggregate_stats_ok:
  assumes "\<forall>l \<in> set Ls. l \<noteq> []"
  shows "aggregate_stats (map lifespan_stats Ls) num_subsamples subsample_size =
     Inr (if Ls = [] then [(''count'', PyInt 0)]
          else [(''count'', PyInt (py_int_of_float (np_mean (map (\<lambda>l. real (length l)) Ls)))),
                (''mean_lifespan'', PyFloat (np_mean (map np_mean Ls))),
                (''std_lifespan'', PyFloat (np_mean (map np_std Ls))),
                (''median_lifespan'', PyFloat (np_mean (map np_median Ls))),
                (''max_lifespan'', PyFloat (np_max (map np_max Ls))),
                (''iqr_lifespan'',
                   PyFloat (np_mean (map (\<lambda>l. np_percentile l 75 - np_percentile l 25) Ls))),
                (''entropy'', PyFloat (np_mean (map lifespan_entropy Ls))),
                (''num_subsamples'', PyInt num_subsamples),
                (''subsample_size'', PyInt subsample_size)])"
proof -
  have f1: "field_values (map lifespan_stats Ls) ''count'' = Inr (map (\<lambda>l. real (length l)) Ls)"
    using field_values_ok[of Ls "''count''" "\<lambda>l. PyInt (int (length l))"] assms
    by (simp add: lifespan_stats_def)
  have f2: "field_values (map lifespan_stats Ls) ''mean_lifespan'' = Inr (map np_mean Ls)"
    using field_values_ok[of Ls "''mean_lifespan''" "\<lambda>l. PyFloat (np_mean l)"] assms
    by (simp add: lifespan_stats_def)
  have f3: "field_values (map lifespan_stats Ls) ''std_lifespan'' = Inr (map np_std Ls)"
    using field_values_ok[of Ls "''std_lifespan''" "\<lambda>l. PyFloat (np_std l)"] assms
    by (simp add: lifespan_stats_def)
  have f4: "field_values (map lifespan_stats Ls) ''median_lifespan'' = Inr (map np_median Ls)"
    using field_values_ok[of Ls "''median_lifespan''" "\<lambda>l. PyFloat (np_median l)"] assms
    by (simp add: lifespan_stats_def)
  have f5: "field_values (map lifespan_stats Ls) ''max_lifespan'' = Inr (map np_max Ls)"
    using field_values_ok[of Ls "''max_lifespan''" "\<lambda>l. PyFloat (np_max l)"] assms
    by (simp add: lifespan_stats_def)
  have f6: "field_values (map lifespan_stats Ls) ''iqr_lifespan''
              = Inr (map (\<lambda>l. np_percentile l 75 - np_percentile l 25) Ls)"
    using field_values_ok[of Ls "''iqr_lifespan''"
            "\<lambda>l. PyFloat (np_percentile l 75 - np_percentile l 25)"] assms
    by (simp add: lifespan_stats_def)
  have f7: "field_values (map lifespan_stats Ls) ''entropy'' = Inr (map lifespan_entropy Ls)"
    using field_values_ok[of Ls "''entropy''" "\<lambda>l. PyFloat (lifespan_entropy l)"] assms
    by (simp add: lifespan_stats_def)
  show ?thesis
    unfolding aggregate_stats_def f1 f2 f3 f4 f5 f6 f7 by (simp add: err_bind_def)
qed

lemma aggregate_loop_ok:
  assumes "set ks \<subseteq> set dims"
    and "\<forall>k \<in> set ks. aggregate_stats (B k) num_subsamples subsample_size = Inr (G k)"
  shows "aggregate_loop (map (\<lambda>k. (hkey k, B k)) dims) num_subsamples subsample_size ks ds ss
         = Inr (fold (\<lambda>k. AList.update (hkey k) []) ks ds,
                fold (\<lambda>k. AList.update (hkey k) (G k)) ks ss)"
  using assms
  by (induction ks arbitrary: ds ss)
     (simp_all add: Let_def err_bind_def dict_get_def map_of_keyed_hkey subset_iff)

text \<open>The statistics that the aggregation reports for the lifespan lists it kept.\<close>

definition aggregated :: "real list list \<Rightarrow> int \<Rightarrow> int \<Rightarrow> stats_dict" where
  "aggregated Ls num_subsamples subsample_size =
     (if Ls = [] then [(''count'', PyInt 0)]
      else [(''count'', PyInt (py_int_of_float (np_mean (map (\<lambda>l. real (length l)) Ls)))),
            (''mean_lifespan'', PyFloat (np_mean (map np_mean Ls))),
            (''std_lifespan'', PyFloat (np_mean (map np_std Ls))),
            (''median_lifespan'', PyFloat (np_mean (map np_median Ls))),
            (''max_lifespan'', PyFloat (np_max (map np_max Ls))),
            (''iqr_lifespan'',
               PyFloat (np_mean (map (\<lambda>l. np_percentile l 75 - np_percentile l 25) Ls))),
            (''entropy'', PyFloat (np_mean (map lifespan_entropy Ls))),
            (''num_subsamples'', PyInt num_subsamples),
            (''subsample_size'', PyInt subsample_size)])"

lemma multi_subsample_persistence_ok:
  assumes "\<forall>m kw. length (ripser m kw) = nat (maxdim kw + 1)"
    and "0 \<le> subsample_size"
    and "\<forall>i < nat num_subsamples.
           \<forall>j \<in> set (choice i (shape0 dm) (nat (min subsample_size (int (shape0 dm))))).
             j < shape0 dm"
  shows "multi_subsample_persistence ripser choice dm max_dim subsample_size num_subsamples =
     Inr \<lparr>diagrams = map (\<lambda>k. (hkey k, [])) [0..<nat (max_dim + 1)],
          stats = map (\<lambda>k. (hkey k,
                      aggregated
                        (filter (\<lambda>ls. ls \<noteq> [])
                           (map (\<lambda>i. draw_lifespans ripser choice dm max_dim subsample_size i k)
                              [0..<nat num_subsamples]))
                        num_subsamples subsample_size))
                    [0..<nat (max_dim + 1)],
          num_points = int (shape0 dm), method_name = Some ''multi_subsample''\<rparr>"
proof -
  let ?dims = "[0..<nat (max_dim + 1)]"
  let ?Ls = "\<lambda>k. filter (\<lambda>ls. ls \<noteq> [])
                    (map (\<lambda>i. draw_lifespans ripser choice dm max_dim subsample_size i k)
                       [0..<nat num_subsamples])"
  have sl: "subsample_loop ripser choice dm max_dim subsample_size [0..<nat num_subsamples]
              (map (\<lambda>k. (hkey k, [])) ?dims)
            = Inr (map (\<lambda>k. (hkey k, map lifespan_stats (?Ls k))) ?dims)"
    using subsample_loop_ok[of ripser subsample_size "[0..<nat num_subsamples]" choice dm max_dim
            "\<lambda>k. []"] assms
    by simp
  have ag: "\<forall>k \<in> set ?dims. aggregate_stats (map lifespan_stats (?Ls k)) num_subsamples subsample_size
              = Inr (aggregated (?Ls k) num_subsamples subsample_size)"
    unfolding aggregated_def by (intro ballI aggregate_stats_ok) simp
  have al: "aggregate_loop (map (\<lambda>k. (hkey k, map lifespan_stats (?Ls k))) ?dims)
              num_subsamples subsample_size ?dims [] []
            = Inr (map (\<lambda>k. (hkey k, [])) ?dims,
                   map (\<lambda>k. (hkey k, aggregated (?Ls k) num_subsamples subsample_size)) ?dims)"
    using aggregate_loop_ok[OF subset_refl ag, of "[]" "[]"]
    by (simp add: fold_update_fresh hkey_distinct)
  show ?thesis
    unfolding multi_subsample_persistence_def Let_def
    by (simp only: sl al err_bind_def sum.case prod.case)
qed




subsection \<open>What the multiple-subsample path reports\<close>

text \<open>
  Claim C2, as amended. For \<open>N > 50000\<close> the computation makes 20 draws of 2000
  indices and runs \<open>compute_persistence\<close> (threshold \<open>0.8\<close>) on the sub-matrix of each.
  Ripser is assumed to return one diagram per dimension, and the generator to return
  indices of the matrix. For every requested dimension the reported diagram is empty.
  With \<open>Ls\<close> the finite-lifespan lists of the subsamples that have a finite feature
  in that dimension, the statistics are \<open>{"count": 0}\<close> when there is none, and
  otherwise: the mean lifespan, standard deviation, median, interquartile range and
  entropy are each the arithmetic average of the field over those subsamples; the
  count is that average truncated to an integer; \<open>max_lifespan\<close> is the maximum, not
  the average, of the subsamples' maxima; and the fields \<open>num_subsamples = 20\<close> and
  \<open>subsample_size = 2000\<close> are added.
\<close>

theorem multi_subsample_aggregation:
  assumes "50000 < shape0 dm"
    and "\<forall>m kw. length (ripser m kw) = nat (maxdim kw + 1)"
    and "\<forall>i < 20. \<forall>j \<in> set (choice i (shape0 dm) 2000). j < shape0 dm"
    and "int k \<le> max_dim"
    and "Ls = filter (\<lambda>ls. ls \<noteq> [])
                (map (\<lambda>i. draw_lifespans ripser choice dm max_dim 2000 i k) [0..<20])"
  shows "\<exists>r. compute_persistence_scaled ripser gudhi choice dm max_dim = Inr r
           \<and> map_of (diagrams r) (hkey k) = Some []
           \<and> map_of (stats r) (hkey k) = Some
               (if Ls = [] then [(''count'', PyInt 0)]
                else [(''count'', PyInt (py_int_of_float
                                          (np_mean (map (\<lambda>l. real (length l)) Ls)))),
                      (''mean_lifespan'', PyFloat (np_mean (map np_mean Ls))),
                      (''std_lifespan'', PyFloat (np_mean (map np_std Ls))),
                      (''median_lifespan'', PyFloat (np_mean (map np_median Ls))),
                      (''max_lifespan'', PyFloat (np_max (map np_max Ls))),
                      (''iqr_lifespan'',
                         PyFloat (np_mean (map (\<lambda>l. np_percentile l 75 - np_percentile l 25) Ls))),
                      (''entropy'', PyFloat (np_mean (map lifespan_entropy Ls))),
                      (''num_subsamples'', PyInt 20),
                      (''subsample_size'', PyInt 2000)])"
proof -
  have sz: "nat (min 2000 (int (shape0 dm))) = 2000" using assms(1) by simp
  have k: "k \<in> set [0..<nat (max_dim + 1)]" using assms(4) by simp
  have "multi_subsample_persistence ripser choice dm max_dim 2000 20 =
     Inr \<lparr>diagrams = map (\<lambda>k. (hkey k, [])) [0..<nat (max_dim + 1)],
          stats = map (\<lambda>k. (hkey k,
                      aggregated
                        (filter (\<lambda>ls. ls \<noteq> [])
                           (map (\<lambda>i. draw_lifespans ripser choice dm max_dim 2000 i k)
                              [0..<nat 20]))
                        20 2000))
                    [0..<nat (max_dim + 1)],
          num_points = int (shape0 dm), method_name = Some ''multi_subsample''\<rparr>"
    using assms(2,3) by (intro multi_subsample_persistence_ok) (simp_all add: sz)
  moreover have "compute_persistence_scaled ripser gudhi choice dm max_dim
      = multi_subsample_persistence ripser choice dm max_dim 2000 20"
    using assms(1) by (simp add: compute_persistence_scaled_def Let_def)
  ultimately show ?thesis
    using k assms(5) by (simp add: map_of_keyed_hkey aggregated_def)
qed

lemma finite_lifespans_replicate:
  "finite_lifespans (replicate n (0, Finite c) @ [(0, Infinity)]) = replicate n c"
  by (induction n) (simp_all add: finite_lifespans_def List.map_filter_simps)

lemma two_scale_choice:
  "i < 20 \<Longrightarrow> j \<in> set (choice_blocks i (shape0 two_scale) 2000) \<Longrightarrow> j < shape0 two_scale"
  by (simp add: choice_blocks_def two_scale_def)

lemma two_scale_draw:
  assumes "i < 20"
  shows "draw_lifespans ripser_equidistant choice_blocks two_scale 0 2000 i 0
           = replicate 1999 (if i = 0 then 1 / 2 else 1 / 4)"
  using assms
  by (simp add: draw_lifespans_def Let_def two_scale_def choice_blocks_def ripser_equidistant_def
        finite_lifespans_replicate)

lemma two_scale_kept:
  "filter (\<lambda>ls. ls \<noteq> [])
     (map (\<lambda>i. draw_lifespans ripser_equidistant choice_blocks two_scale 0 2000 i 0) [0..<20])
   = map (\<lambda>i. replicate 1999 (if i = 0 then 1 / 2 else 1 / 4)) [0..<20]"
proof -
  have "map (\<lambda>i. draw_lifespans ripser_equidistant choice_blocks two_scale 0 2000 i 0) [0..<20]
      = map (\<lambda>i. replicate 1999 (if i = 0 then 1 / 2 else 1 / 4)) [0..<20]"
    by (intro map_cong refl two_scale_draw) simp
  then show ?thesis by (simp add: filter_map o_def)
qed

lemma twenty: "[0..<20] = 0 # [1..<20]"
  by (simp add: upt_conv_Cons)

lemma two_scale_maxes:
  "map np_max (map (\<lambda>i. replicate 1999 (if i = 0 then 1 / 2 else 1 / 4)) [0..<20])
    = 1 / 2 # replicate 19 (1 / 4)"
proof -
  have "map np_max (map (\<lambda>i. replicate 1999 (if i = 0 then 1 / 2 else 1 / 4)) [0..<20])
        = map (\<lambda>i. if i = 0 then 1 / 2 else 1 / 4 :: real) [0..<20]"
    unfolding map_map o_def by (intro map_cong refl) (simp add: np_max_def)
  also have "\<dots> = 1 / 2 # map (\<lambda>i. if i = 0 then 1 / 2 else 1 / 4) [1..<20]"
    by (simp add: twenty)
  also have "map (\<lambda>i. if i = 0 then 1 / 2 else 1 / 4 :: real) [1..<20] = map (\<lambda>i. 1 / 4) [1..<20]"
    by (intro map_cong refl) simp
  also have "map (\<lambda>i. 1 / 4 :: real) [1..<20] = replicate 19 (1 / 4)"
    by (simp add: map_replicate_const)
  finally show ?thesis .
qed

lemma two_scale_run:
  "compute_persistence_scaled ripser_equidistant gudhi_equidistant choice_blocks two_scale 0
   = Inr \<lparr>diagrams = [(''H0'', [])],
          stats = [(''H0'', aggregated
                     (map (\<lambda>i. replicate 1999 (if i = 0 then 1 / 2 else 1 / 4)) [0..<20]) 20 2000)],
          num_points = 50001, method_name = Some ''multi_subsample''\<rparr>"
proof -
  have "multi_subsample_persistence ripser_equidistant choice_blocks two_scale 0 2000 20 =
     Inr \<lparr>diagrams = map (\<lambda>k. (hkey k, [])) [0..<nat (0 + 1)],
          stats = map (\<lambda>k. (hkey k,
                      aggregated
                        (filter (\<lambda>ls. ls \<noteq> [])
                           (map (\<lambda>i. draw_lifespans ripser_equidistant choice_blocks two_scale 0 2000 i k)
                              [0..<nat 20]))
                        20 2000))
                    [0..<nat (0 + 1)],
          num_points = int (shape0 two_scale), method_name = Some ''multi_subsample''\<rparr>"
    by (intro multi_subsample_persistence_ok)
       (simp_all add: ripser_equidistant_length two_scale_def choice_blocks_def)
  then show ?thesis
    using two_scale_kept
    by (simp add: compute_persistence_scaled_def Let_def hkey_small two_scale_def)
qed

text \<open>
  Counterexample to claim C2 as stated. On \<open>two_scale\<close>, with the generator drawing
  consecutive blocks, the first subsample has all its finite lifespans equal to
  \<open>1/2\<close> and the other nineteen equal to \<open>1/4\<close>. The reported \<open>max_lifespan\<close> is
  \<open>1/2\<close>, while the twenty subsamples' \<open>max_lifespan\<close> fields are \<open>1/2\<close> once and
  \<open>1/4\<close> nineteen times, whose arithmetic average is \<open>21/80\<close>.
\<close>

theorem multi_subsample_max_counterexample:
  "map_sum id (\<lambda>r. stat_of (stats r) ''H0'' ''max_lifespan'')
     (compute_persistence_scaled ripser_equidistant gudhi_equidistant choice_blocks two_scale 0)
   = Inr (Some (PyFloat (1 / 2)))
   \<and> map (\<lambda>i. map_sum id (\<lambda>S. stat_of S ''H0'' ''max_lifespan'')
                 (draw_stats ripser_equidistant choice_blocks two_scale 0 2000 i)) [0..<20]
     = map (\<lambda>v. Inr (Some (PyFloat v))) (1 / 2 # replicate 19 (1 / 4))
   \<and> np_mean (1 / 2 # replicate 19 (1 / 4)) = 21 / 80"
proof -
  have a: "map_sum id (\<lambda>r. stat_of (stats r) ''H0'' ''max_lifespan'')
     (compute_persistence_scaled ripser_equidistant gudhi_equidistant choice_blocks two_scale 0)
   = Inr (Some (PyFloat (1 / 2)))"
  proof -
    have mx: "np_max (1 / 2 # replicate 19 (1 / 4 :: real)) = 1 / 2"
      by (simp add: np_max_def)
    have "map_sum id (\<lambda>r. stat_of (stats r) ''H0'' ''max_lifespan'')
            (compute_persistence_scaled ripser_equidistant gudhi_equidistant choice_blocks two_scale 0)
          = Inr (Some (PyFloat (np_max (map np_max
               (map (\<lambda>i. replicate 1999 (if i = 0 then 1 / 2 else 1 / 4)) [0..<20])))))"
      by (simp add: two_scale_run stat_of_def aggregated_def)
    then show ?thesis unfolding two_scale_maxes mx .
  qed
  have d: "draw_stats ripser_equidistant choice_blocks two_scale 0 2000 i
           = Inr [(''H0'', lifespan_stats (replicate 1999 (if i = 0 then 1 / 2 else 1 / 4)))]"
    if "i < 20" for i
  proof -
    have "draw_stats ripser_equidistant choice_blocks two_scale 0 2000 i =
           Inr (map (\<lambda>k. (hkey k, lifespan_stats
                              (draw_lifespans ripser_equidistant choice_blocks two_scale 0 2000 i k)))
                  [0..<nat (0 + 1)])"
      using that
      by (intro draw_stats_ok)
         (simp_all add: ripser_equidistant_length two_scale_def choice_blocks_def)
    then show ?thesis using that by (simp add: hkey_small two_scale_draw)
  qed
  have "map (\<lambda>i. map_sum id (\<lambda>S. stat_of S ''H0'' ''max_lifespan'')
                 (draw_stats ripser_equidistant choice_blocks two_scale 0 2000 i)) [0..<20]
     = map (\<lambda>i. Inr (Some (PyFloat (if i = 0 then 1 / 2 else 1 / 4)))) [0..<20]"
    by (intro map_cong refl) (simp add: d stat_of_def lifespan_stats_def np_max_def)
  also have "\<dots> = Inr (Some (PyFloat (1 / 2)))
                 # map (\<lambda>i. Inr (Some (PyFloat (if i = 0 then 1 / 2 else 1 / 4)))) [1..<20]"
    by (simp add: twenty)
  also have "map (\<lambda>i. (Inr (Some (PyFloat (if i = 0 then 1 / 2 else 1 / 4))) :: py_error + pyval option)) [1..<20]
       = map (\<lambda>i. Inr (Some (PyFloat (1 / 4)))) [1..<20]"
    by (intro map_cong refl) simp
  also have "map (\<lambda>i. (Inr (Some (PyFloat (1 / 4))) :: py_error + pyval option)) [1..<20]
       = replicate 19 (Inr (Some (PyFloat (1 / 4))))"
    by (simp add: map_replicate_const)
  finally have b: "map (\<lambda>i. map_sum id (\<lambda>S. stat_of S ''H0'' ''max_lifespan'')
                 (draw_stats ripser_equidistant choice_blocks two_scale 0 2000 i)) [0..<20]
     = map (\<lambda>v. Inr (Some (PyFloat v))) (1 / 2 # replicate 19 (1 / 4))"
    by (simp only: list.map map_replicate)
  have c: "np_mean (1 / 2 # replicate 19 (1 / 4)) = 21 / 80"
    by (simp add: np_mean_def sum_list_replicate)
  show ?thesis using a b c by blast
qed

theorem multi_subsample_aggregation_witness:
  "50000 < shape0 two_scale
   \<and> (\<forall>m kw. length (ripser_equidistant m kw) = nat (maxdim kw + 1))
   \<and> int 0 \<le> 0
   \<and> (\<exists>r. compute_persistence_scaled ripser_equidistant gudhi_equidistant choice_blocks two_scale 0
              = Inr r
          \<and> map_of (diagrams r) ''H0'' = Some []
          \<and> stat_of (stats r) ''H0'' ''count'' = Some (PyInt 1999)
          \<and> stat_of (stats r) ''H0'' ''mean_lifespan'' = Some (PyFloat (21 / 80))
          \<and> stat_of (stats r) ''H0'' ''max_lifespan'' = Some (PyFloat (1 / 2))
          \<and> stat_of (stats r) ''H0'' ''num_subsamples'' = Some (PyInt 20))"
proof -
  have mx: "np_max (1 / 2 # replicate 19 (1 / 4 :: real)) = 1 / 2"
    by (simp add: np_max_def)
  have lens: "map (\<lambda>l. real (length l))
                (map (\<lambda>i. replicate 1999 (if i = 0 then 1 / 2 else 1 / 4 :: real)) [0..<20])
              = replicate 20 1999"
    by (simp add: o_def map_replicate_const)
  have means: "map np_mean (map (\<lambda>i. replicate 1999 (if i = 0 then 1 / 2 else 1 / 4)) [0..<20])
      = 1 / 2 # replicate 19 (1 / 4)"
  proof -
    have "map np_mean (map (\<lambda>i. replicate 1999 (if i = 0 then 1 / 2 else 1 / 4)) [0..<20])
        = map (\<lambda>i. if i = 0 then 1 / 2 else 1 / 4 :: real) [0..<20]"
      unfolding map_map o_def by (intro map_cong refl) (simp add: np_mean_def sum_list_replicate)
    also have "\<dots> = 1 / 2 # map (\<lambda>i. if i = 0 then 1 / 2 else 1 / 4) [1..<20]"
      by (simp add: twenty)
    also have "map (\<lambda>i. if i = 0 then 1 / 2 else 1 / 4 :: real) [1..<20] = map (\<lambda>i. 1 / 4) [1..<20]"
      by (intro map_cong refl) simp
    also have "map (\<lambda>i. 1 / 4 :: real) [1..<20] = replicate 19 (1 / 4)"
      by (simp add: map_replicate_const)
    finally show ?thesis .
  qed
  have cnt: "py_int_of_float (np_mean (replicate 20 1999)) = 1999"
    by (simp add: py_int_of_float_def np_mean_def sum_list_replicate)
  have avg: "np_mean (1 / 2 # replicate 19 (1 / 4)) = 21 / 80"
    by (simp add: np_mean_def sum_list_replicate)
  have ne: "map (\<lambda>i. replicate 1999 (if i = 0 then 1 / 2 else 1 / 4 :: real)) [0..<20] \<noteq> []"
    by simp
  show ?thesis
    using multi_subsample_aggregation
            [of two_scale ripser_equidistant choice_blocks 0 0
                "map (\<lambda>i. replicate 1999 (if i = 0 then 1 / 2 else 1 / 4)) [0..<20]"
                gudhi_equidistant]
          two_scale_kept two_scale_choice ne
    unfolding lens means two_scale_maxes
    by (auto simp add: ripser_equidistant_length hkey_small stat_of_def cnt avg mx two_scale_def)
qed




section \<open>Properties of the anomaly detector\<close>

text \<open>
  An example environment for the detector. \<open>corr_first\<close> stands for a correlation
  routine and returns a \<open>2 \<times> 2\<close> matrix whose off-diagonal entry is the first sample
  of the first channel in the window; \<open>cov_zero\<close> and \<open>inv_fixed\<close> stand for the
  covariance and the inverse and return fixed matrices. \<open>spike_channels\<close> are two
  channels of 24 samples, all zero but the first sample of the first channel.
\<close>

definition corr_first :: "real list list \<Rightarrow> real list list" where
  "corr_first cols = (let r = hd (hd cols) in [[1, r], [r, 1]])"

definition cov_zero :: "real list list \<Rightarrow> real list list" where
  "cov_zero rows = replicate 4 (replicate 4 0)"

definition inv_fixed :: "real list list \<Rightarrow> py_error + real list list" where
  "inv_fixed m = Inr [[100, 0, 0, 0], [0, 0, 0, 0], [0, 0, 0, 0], [0, 0, 0, 0]]"

definition spike_channels :: "(string \<times> real list) list" where
  "spike_channels = [(''online'', 1 # replicate 23 0), (''phone'', replicate 24 0)]"

definition spike_data :: "real list list" where
  "spike_data = map (\<lambda>t. [(1 # replicate 23 0) ! t, 0]) [0..<24]"

lemma map_err_length: "map_err f xs = Inr ys \<Longrightarrow> length ys = length xs"
  by (induction xs arbitrary: ys) (auto split: sum.splits)

lemma map_err_total:
  assumes "\<forall>x \<in> set xs. \<exists>y. f x = Inr y"
  shows "\<exists>ys. map_err f xs = Inr ys"
  using assms by (induction xs) auto

lemma py_range_length: "py_range a b step = Inr xs \<Longrightarrow> length xs = range_len a b step"
  by (auto simp: py_range_def split: if_splits)

lemma window_features_total:
  assumes "\<forall>m. ripser m \<lparr>maxdim = 0, distance_matrix = True, thresh = None, n_perm = None\<rparr> \<noteq> []"
  shows "\<exists>feat. window_features corrcoef ripser data n_channels window_size start = Inr feat"
  using assms by (simp add: window_features_def Let_def)

text \<open>
  Claim C10. With fewer than two channels the detector returns the empty list and
  raises nothing. With two or more, a non-zero step and a Ripser that returns the
  dimension-0 diagram, it returns the empty list whenever \<open>range(0, T - window_size, step)\<close>
  has fewer than ten starts, \<open>T\<close> being the shortest channel length. Conversely any
  anomaly it returns comes from a call with at least two channels and at least ten
  windows: the Gaussian fit and the flagging are reached only above both thresholds.
\<close>

theorem detect_anomalies_tada_guards:
  fixes booking_channels :: "(string \<times> real list) list"
  defines "T \<equiv> Min (set (map (\<lambda>(name, v). length v) booking_channels))"
  shows "(length booking_channels < 2 \<longrightarrow>
            detect_anomalies_tada corrcoef ripser cov linalg_inv booking_channels window_size step
              = Inr [])
       \<and> (2 \<le> length booking_channels \<and> step \<noteq> 0 \<and> (\<forall>m. ripser m \<lparr>maxdim = 0, distance_matrix = True, thresh = None, n_perm = None\<rparr> \<noteq> [])
            \<and> range_len 0 (int T - window_size) step < 10 \<longrightarrow>
            detect_anomalies_tada corrcoef ripser cov linalg_inv booking_channels window_size step
              = Inr [])
       \<and> (\<forall>found.
            detect_anomalies_tada corrcoef ripser cov linalg_inv booking_channels window_size step
              = Inr found \<and> found \<noteq> [] \<longrightarrow>
            2 \<le> length booking_channels \<and> step \<noteq> 0
            \<and> 10 \<le> range_len 0 (int T - window_size) step)"
proof -
  have c1: "detect_anomalies_tada corrcoef ripser cov linalg_inv booking_channels window_size step
              = Inr []" if "length booking_channels < 2"
    using that by (simp add: detect_anomalies_tada_def Let_def)
  have c2: "detect_anomalies_tada corrcoef ripser cov linalg_inv booking_channels window_size step
              = Inr []" if h: "2 \<le> length booking_channels \<and> step \<noteq> 0 \<and> (\<forall>m. ripser m \<lparr>maxdim = 0, distance_matrix = True, thresh = None, n_perm = None\<rparr> \<noteq> [])
            \<and> range_len 0 (int T - window_size) step < 10"
  proof -
  let ?data = "column_stack (map (\<lambda>(name, v). py_slice v 0 (int T)) booking_channels) T"
  obtain starts where st: "py_range 0 (int T - window_size) step = Inr starts"
    using h by (simp add: py_range_def)
  obtain feats where fs:
    "map_err (window_features corrcoef ripser ?data (length booking_channels) window_size) starts
       = Inr feats"
    using map_err_total[of starts
            "window_features corrcoef ripser ?data (length booking_channels) window_size"]
          window_features_total h
    by blast
  have "length feats < 10"
    using map_err_length[OF fs] py_range_length[OF st] h by simp
  then show ?thesis
    using h st fs
    by (simp add: detect_anomalies_tada_def Let_def T_def err_bind_def)
  qed
  have c3: "2 \<le> length booking_channels \<and> step \<noteq> 0
            \<and> 10 \<le> range_len 0 (int T - window_size) step" if a: "detect_anomalies_tada corrcoef ripser cov linalg_inv booking_channels window_size step
              = Inr found \<and> found \<noteq> []" for found
  proof -
  let ?data = "column_stack (map (\<lambda>(name, v). py_slice v 0 (int T)) booking_channels) T"
  have n: "2 \<le> length booking_channels"
    using a by (auto simp: detect_anomalies_tada_def Let_def split: if_splits)
  then obtain starts where st: "py_range 0 (int T - window_size) step = Inr starts"
    using a
    by (auto simp: detect_anomalies_tada_def Let_def T_def err_bind_def split: sum.splits)
  then have step: "step \<noteq> 0" by (auto simp: py_range_def split: if_splits)
  obtain feats where fs:
    "map_err (window_features corrcoef ripser ?data (length booking_channels) window_size) starts
       = Inr feats"
    using a n st
    by (auto simp: detect_anomalies_tada_def Let_def T_def err_bind_def split: sum.splits)
  have "\<not> length feats < 10"
    using a n st fs
    by (auto simp: detect_anomalies_tada_def Let_def T_def err_bind_def)
  then have "10 \<le> range_len 0 (int T - window_size) step"
    using map_err_length[OF fs] py_range_length[OF st] by simp
  then show ?thesis
    using n step by simp
  qed
  show ?thesis using c1 c2 c3 by blast
qed


lemma spike_T: "Min (set (map (\<lambda>(name, v). length v) spike_channels)) = 24"
  by (simp add: spike_channels_def)

lemma spike_data_eq:
  "column_stack (map (\<lambda>(name, v). py_slice v 0 (int 24)) spike_channels) 24 = spike_data"
  by (simp add: column_stack_def spike_channels_def py_slice_def slice_index_def spike_data_def)

lemma spike_window:
  assumes "k < 10"
  shows "window_features corr_first ripser_equidistant spike_data 2 14 (int k)
          = Inr (if k = 0 then [0, 0, 0, 1] else [1, 0, 1, 1])"
proof -
  have w: "py_slice spike_data (int k) (int k + 14) = take 14 (drop k spike_data)"
    using assms py_slice_window[of "int k" 14 spike_data] by (simp add: spike_data_def)
  have len: "length (take 14 (drop k spike_data)) = 14"
    using assms by (simp add: spike_data_def)
  have h: "hd (hd (array_T (take 14 (drop k spike_data)) 2)) = (if k = 0 then 1 else 0)"
  proof -
    have "hd (hd (array_T (take 14 (drop k spike_data)) 2))
            = hd (map (\<lambda>row. row ! 0) (take 14 (drop k spike_data)))"
      by (simp add: array_T_def upt_conv_Cons)
    also have "\<dots> = (take 14 (drop k spike_data)) ! 0 ! 0"
      using len by (cases "take 14 (drop k spike_data)") auto
    also have "\<dots> = spike_data ! k ! 0"
      using assms by (simp add: spike_data_def)
    also have "\<dots> = (if k = 0 then 1 else 0)"
      using assms by (auto simp: spike_data_def nth_Cons')
    finally show ?thesis .
  qed
  show ?thesis
    unfolding window_features_def w Let_def corr_first_def h
    by (simp add: correlation_distance_def matrix_of_rows_def ripser_equidistant_def
          upt_conv_Cons finite_lifespans_def List.map_filter_simps np_mean_def np_std_def
          np_max_def)
qed


lemma map_err_cong_Inr:
  assumes "\<forall>x \<in> set xs. f x = Inr (g x)"
  shows "map_err f xs = Inr (map g xs)"
  using assms by (induction xs) auto

lemma ten: "[0..<10] = [0, 1, 2, 3, 4, 5, 6, 7, 8, 9]"
  by (simp add: upt_conv_Cons)

lemma spike_starts: "py_range 0 (int 24 - 14) 1 = Inr (map int [0..<10])"
  by (simp add: py_range_def range_len_def)

lemma spike_features:
  "map_err (window_features corr_first ripser_equidistant spike_data 2 14) (map int [0..<10])
     = Inr ([0, 0, 0, 1] # replicate 9 [1, 0, 1, 1])"
proof -
  have "map_err (window_features corr_first ripser_equidistant spike_data 2 14) (map int [0..<10])
     = Inr (map (\<lambda>i. if i = 0 then [0, 0, 0, 1] else [1, 0, 1, 1]) (map int [0..<10]))"
  proof (rule map_err_cong_Inr, rule ballI)
    fix x assume "x \<in> set (map int [0..<10])"
    then obtain k where k: "x = int k" "k < 10" by auto
    then show "window_features corr_first ripser_equidistant spike_data 2 14 x
                 = Inr (if x = 0 then [0, 0, 0, 1] else [1, 0, 1, 1])"
      using spike_window[of k] by simp
  qed
  moreover have "replicate 9 [1, 0, 1, 1 :: real]
      = [[1, 0, 1, 1], [1, 0, 1, 1], [1, 0, 1, 1], [1, 0, 1, 1], [1, 0, 1, 1],
         [1, 0, 1, 1], [1, 0, 1, 1], [1, 0, 1, 1], [1, 0, 1, 1]]"
    by (simp add: numeral_eq_Suc)
  moreover have "map (\<lambda>i. if i = 0 then [0, 0, 0, 1] else [1, 0, 1, 1 :: real]) (map int [0..<10])
      = [[0, 0, 0, 1], [1, 0, 1, 1], [1, 0, 1, 1], [1, 0, 1, 1], [1, 0, 1, 1], [1, 0, 1, 1],
         [1, 0, 1, 1], [1, 0, 1, 1], [1, 0, 1, 1], [1, 0, 1, 1]]"
    by (simp add: ten)
  ultimately show ?thesis by (simp only:)
qed

lemma spike_maha:
  "mahalanobis [0, 0, 0, 1] [[100, 0, 0, 0], [0, 0, 0, 0], [0, 0, 0, 0], [0, 0, 0, 0]]
     [9 / 10, 0, 9 / 10, 1] = 9"
  "mahalanobis [1, 0, 1, 1] [[100, 0, 0, 0], [0, 0, 0, 0], [0, 0, 0, 0], [0, 0, 0, 0]]
     [9 / 10, 0, 9 / 10, 1] = 1"
proof -
  have "sqrt 81 = 9" by (rule real_sqrt_unique) simp_all
  then show "mahalanobis [0, 0, 0, 1] [[100, 0, 0, 0], [0, 0, 0, 0], [0, 0, 0, 0], [0, 0, 0, 0]]
     [9 / 10, 0, 9 / 10, 1] = 9"
    by (simp add: mahalanobis_def upt_conv_Cons)
  show "mahalanobis [1, 0, 1, 1] [[100, 0, 0, 0], [0, 0, 0, 0], [0, 0, 0, 0], [0, 0, 0, 0]]
     [9 / 10, 0, 9 / 10, 1] = 1"
    by (simp add: mahalanobis_def upt_conv_Cons)
qed

lemma spike_mean:
  "map (\<lambda>j. np_mean (map (\<lambda>row. row ! j) ([0, 0, 0, 1] # replicate 9 [1, 0, 1, 1]))) [0..<4]
    = [9 / 10, 0, 9 / 10, 1]"
  by (simp add: upt_conv_Cons np_mean_def sum_list_replicate)

lemma spike_run:
  "detect_anomalies_tada corr_first ripser_equidistant cov_zero inv_fixed spike_channels 14 1
    = Inr [\<lparr>position = 7, mahalanobis_score = 9, severity = ''high'',
            feature_values = [(''mean_lifespan'', PyFloat 0), (''std_lifespan'', PyFloat 0),
                              (''max_lifespan'', PyFloat 0), (''num_components'', PyInt 1)]\<rparr>]"
proof -
  have n: "length (map fst spike_channels) = 2" by (simp add: spike_channels_def)
  have pos: "map (\<lambda>start. start + 14 div 2) (map int [0..<10]) = [7, 8, 9, 10, 11, 12, 13, 14, 15, 16 :: int]"
    by (simp add: ten)
  have rep9: "replicate 9 x = [x, x, x, x, x, x, x, x, x]" for x :: "real list"
    by (simp add: numeral_eq_Suc)
  show ?thesis
    unfolding detect_anomalies_tada_def Let_def n spike_T
    apply (simp only: spike_data_eq spike_starts spike_features err_bind_def sum.case pos spike_mean)
    apply (simp add: inv_fixed_def err_bind_def rep9 flag_anomaly_def spike_maha Let_def
             py_int_of_float_def)
    done
qed




theorem detect_anomalies_tada_guards_witness:
  "length [(''online'', [1, 2, 3 :: real])] < 2
   \<and> detect_anomalies_tada corr_first ripser_equidistant cov_zero inv_fixed
        [(''online'', [1, 2, 3])] 14 1 = Inr []
   \<and> 2 \<le> length [(''online'', replicate 20 (0 :: real)), (''phone'', replicate 20 0)]
   \<and> (1 :: int) \<noteq> 0
   \<and> (\<forall>m. ripser_equidistant m
              \<lparr>maxdim = 0, distance_matrix = True, thresh = None, n_perm = None\<rparr> \<noteq> [])
   \<and> range_len 0 (int 20 - 14) 1 < 10
   \<and> detect_anomalies_tada corr_first ripser_equidistant cov_zero inv_fixed
        [(''online'', replicate 20 0), (''phone'', replicate 20 0)] 14 1 = Inr []
   \<and> detect_anomalies_tada corr_first ripser_equidistant cov_zero inv_fixed spike_channels 14 1
       = Inr [\<lparr>position = 7, mahalanobis_score = 9, severity = ''high'',
               feature_values = [(''mean_lifespan'', PyFloat 0), (''std_lifespan'', PyFloat 0),
                                 (''max_lifespan'', PyFloat 0), (''num_components'', PyInt 1)]\<rparr>]
   \<and> 2 \<le> length spike_channels
   \<and> 10 \<le> range_len 0 (int 24 - 14) 1"
proof -
  have r: "\<forall>m. ripser_equidistant m
              \<lparr>maxdim = 0, distance_matrix = True, thresh = None, n_perm = None\<rparr> \<noteq> []"
    by (simp add: ripser_equidistant_def)
  have a: "detect_anomalies_tada corr_first ripser_equidistant cov_zero inv_fixed
        [(''online'', [1, 2, 3])] 14 1 = Inr []"
    using detect_anomalies_tada_guards
            [of "[(''online'', [1, 2, 3])]" corr_first ripser_equidistant cov_zero inv_fixed 14 1]
    by simp
  have b: "detect_anomalies_tada corr_first ripser_equidistant cov_zero inv_fixed
        [(''online'', replicate 20 0), (''phone'', replicate 20 0)] 14 1 = Inr []"
    using detect_anomalies_tada_guards
            [of "[(''online'', replicate 20 0), (''phone'', replicate 20 0)]"
                corr_first ripser_equidistant cov_zero inv_fixed 14 1] r
    by (simp add: range_len_def)
  have c: "2 \<le> length spike_channels \<and> 10 \<le> range_len 0 (int 24 - 14) 1"
    using detect_anomalies_tada_guards
            [of spike_channels corr_first ripser_equidistant cov_zero inv_fixed 14 1]
          spike_run
    by (simp add: spike_channels_def)
  show ?thesis using a b c r spike_run by (simp add: range_len_def)
qed




section \<open>Properties of the floor-plan analysis\<close>

lemma furniture_points_length:
  "furniture_points items = Inr pts \<Longrightarrow> length pts = 5 * length items"
  by (induction items arbitrary: pts)
     (auto simp: Let_def split: option.splits sum.splits)

text \<open>
  Claim C9, as amended. The claim reads: with fewer than \<open>dimension + 2 = 4\<close> points
  the analysis fails with DegenerateInputError. Every furniture item contributes five
  points, so fewer than four points means no furniture at all; the source guards this
  case with an early \<open>return\<close>: the call succeeds with no dead spaces, both scores
  \<open>0.0\<close>, empty \<open>H0\<close> and \<open>H1\<close> diagrams and the point count, and the alpha complex
  is never built.
\<close>

theorem analyze_floor_plan_degenerate:
  assumes "furniture_points furniture_positions = Inr pts"
    and "length pts < 4"
  shows "furniture_positions = []
       \<and> analyze_floor_plan_topology alpha furniture_positions room_boundary
            dead_space_threshold_ft connectivity_threshold_ft
          = Inr \<lparr>dead_spaces = [], coverage_score = 0, connectivity_score = 0,
                 persistence_diagram = [(''H0'', []), (''H1'', [])],
                 num_furniture_points = 0\<rparr>"
proof -
  have "5 * length furniture_positions < 4"
    using furniture_points_length[OF assms(1)] assms(2) by simp
  then have e: "furniture_positions = []" by (cases furniture_positions) simp_all
  then show ?thesis
    by (simp add: analyze_floor_plan_topology_def err_bind_def)
qed

theorem analyze_floor_plan_degenerate_witness:
  "furniture_points [] = Inr []
   \<and> length ([] :: (real \<times> real) list) < 4
   \<and> analyze_floor_plan_topology (\<lambda>pts k. []) [] [(0, 0), (10, 0), (10, 10), (0, 10)] 6 3
       = Inr \<lparr>dead_spaces = [], coverage_score = 0, connectivity_score = 0,
              persistence_diagram = [(''H0'', []), (''H1'', [])],
              num_furniture_points = 0\<rparr>"
  using analyze_floor_plan_degenerate
          [of "[]" "[]" "\<lambda>pts k. []" "[(0, 0), (10, 0), (10, 10), (0, 10)]" 6 3]
  by simp

text \<open>
  Counterexample to claim C9 as stated: an empty furniture list in a square room
  gives zero points, and the analysis returns a result instead of failing.
\<close>

theorem analyze_floor_plan_no_error_counterexample:
  "analyze_floor_plan_topology (\<lambda>pts k. []) [] [(0, 0), (10, 0), (10, 10), (0, 10)] 6 3
     = Inr \<lparr>dead_spaces = [], coverage_score = 0, connectivity_score = 0,
            persistence_diagram = [(''H0'', []), (''H1'', [])],
            num_furniture_points = 0\<rparr>"
  by (simp add: analyze_floor_plan_topology_def err_bind_def)




section \<open>Properties of the simplicial module\<close>

subsection \<open>Union-find: the loop returns, and it returns the root\<close>

text \<open>
  \<open>root_of p x r\<close>: following \<open>parent\<close> from \<open>x\<close> ends at the fixed point \<open>r\<close>.
  The invariant of the dictionary: its keys are the vertices, its values are vertices,
  and the parent relation is well-founded, so that every walk ends.
\<close>

inductive root_of :: "('a \<rightharpoonup> 'a) \<Rightarrow> 'a \<Rightarrow> 'a \<Rightarrow> bool" for p where
  at_root: "p x = Some x \<Longrightarrow> root_of p x x"
| above: "p x = Some y \<Longrightarrow> y \<noteq> x \<Longrightarrow> root_of p y r \<Longrightarrow> root_of p x r"

definition parent_rel :: "('a \<rightharpoonup> 'a) \<Rightarrow> ('a \<times> 'a) set" where
  "parent_rel p = {(y, x). p x = Some y \<and> y \<noteq> x}"

definition uf_inv :: "('a \<rightharpoonup> 'a) \<Rightarrow> 'a set \<Rightarrow> bool" where
  "uf_inv p V \<longleftrightarrow> dom p = V \<and> ran p \<subseteq> V \<and> wf (parent_rel p)"

definition same_root :: "('a \<rightharpoonup> 'a) \<Rightarrow> 'a \<Rightarrow> 'a \<Rightarrow> bool" where
  "same_root p x y \<longleftrightarrow> (\<exists>r. root_of p x r \<and> root_of p y r)"

lemma root_of_det: "root_of p x r \<Longrightarrow> root_of p x r' \<Longrightarrow> r = r'"
proof (induction arbitrary: r' rule: root_of.induct)
  case (at_root x)
  then show ?case by (auto elim: root_of.cases)
next
  case (above x y r)
  from above.prems above.hyps(1,2) have "root_of p y r'"
    by (auto elim: root_of.cases)
  then show ?case by (rule above.IH)
qed

lemma root_of_fixed: "root_of p x r \<Longrightarrow> p r = Some r"
  by (induction rule: root_of.induct) auto

lemma root_of_dom: "root_of p x r \<Longrightarrow> x \<in> dom p"
  by (auto elim: root_of.cases)

lemma root_of_total:
  assumes "uf_inv p V" "x \<in> V"
  shows "\<exists>r. root_of p x r"
proof -
  have "wf (parent_rel p)" using assms(1) by (simp add: uf_inv_def)
  then show ?thesis using assms(2)
  proof (induction x rule: wf_induct_rule)
    case (less x)
    then obtain y where y: "p x = Some y" using assms(1) by (auto simp: uf_inv_def)
    show ?case
    proof (cases "y = x")
      case True
      then show ?thesis using y by (auto intro: root_of.at_root)
    next
      case False
      have "y \<in> V" using y assms(1) by (auto simp: uf_inv_def ran_def)
      moreover have "(y, x) \<in> parent_rel p" using y False by (simp add: parent_rel_def)
      ultimately obtain r where "root_of p y r" using less.IH by blast
      then show ?thesis using y False by (auto intro: root_of.above)
    qed
  qed
qed

lemma halve_keeps_roots:
  assumes inv: "uf_inv p V"
    and x: "p x = Some px" "px \<noteq> x"
    and px: "p px = Some ppx"
  shows "uf_inv (p(x \<mapsto> ppx)) V"
    and "root_of (p(x \<mapsto> ppx)) z r \<longleftrightarrow> root_of p z r"
    and "(ppx, x) \<in> (parent_rel p)\<^sup>+"
proof -
  let ?q = "p(x \<mapsto> ppx)"
  have up: "(ppx, x) \<in> (parent_rel p)\<^sup>+"
  proof (cases "ppx = px")
    case True
    then show ?thesis using x by (auto simp: parent_rel_def)
  next
    case False
    then have "(ppx, px) \<in> parent_rel p" "(px, x) \<in> parent_rel p"
      using x px by (auto simp: parent_rel_def)
    then show ?thesis by (meson trancl.simps)
  qed
  show "(ppx, x) \<in> (parent_rel p)\<^sup>+" by (rule up)
  have sub: "parent_rel ?q \<subseteq> (parent_rel p)\<^sup>+"
    using up by (auto simp: parent_rel_def split: if_splits)
  have "wf ((parent_rel p)\<^sup>+)" using inv by (simp add: uf_inv_def wf_trancl)
  then have wfq: "wf (parent_rel ?q)" using sub by (rule wf_subset)
  have xV: "x \<in> V" using x inv by (auto simp: uf_inv_def)
  have ppxV: "ppx \<in> V" using px inv by (auto simp: uf_inv_def ran_def)
  have "ran ?q \<subseteq> V" using inv ppxV by (auto simp: uf_inv_def ran_def split: if_splits)
  moreover have "dom ?q = V" using inv xV by (auto simp: uf_inv_def)
  ultimately show invq: "uf_inv ?q V" using wfq by (simp add: uf_inv_def)
  have ppx_ne: "ppx \<noteq> x"
  proof
    assume "ppx = x"
    then have "(x, x) \<in> (parent_rel p)\<^sup>+" using up by simp
    moreover have "wf ((parent_rel p)\<^sup>+)" using inv by (simp add: uf_inv_def wf_trancl)
    ultimately show False by (simp add: wf_not_refl)
  qed
  have fwd: "root_of p z r" if "root_of ?q z r" for z r
    using that
  proof (induction rule: root_of.induct)
    case (at_root z)
    then have "z \<noteq> x" using ppx_ne by (auto split: if_splits)
    then show ?case using at_root by (auto intro: root_of.at_root)
  next
    case (above z y r)
    show ?case
    proof (cases "z = x")
      case False
      then show ?thesis using above by (auto intro: root_of.above)
    next
      case True
      then have y: "y = ppx" using above.hyps by simp
      have "root_of p px r"
      proof (cases "ppx = px")
        case True
        then show ?thesis using above.IH y by simp
      next
        case False
        then show ?thesis using px above.IH y by (auto intro: root_of.above)
      qed
      then show ?thesis using x True by (auto intro: root_of.above)
    qed
  qed
  show "root_of ?q z r \<longleftrightarrow> root_of p z r"
  proof
    assume "root_of ?q z r" then show "root_of p z r" by (rule fwd)
  next
    assume a: "root_of p z r"
    then have "z \<in> V" using inv by (auto dest: root_of_dom simp: uf_inv_def)
    then obtain r' where r': "root_of ?q z r'" using root_of_total[OF invq] by blast
    then have "root_of p z r'" by (rule fwd)
    then have "r' = r" using a by (rule root_of_det)
    then show "root_of ?q z r" using r' by simp
  qed
qed

lemma uf_find_returns_aux:
  assumes "wf R" "trans R"
  shows "uf_inv p V \<Longrightarrow> parent_rel p \<subseteq> R \<Longrightarrow> x \<in> V \<Longrightarrow>
         \<exists>r p'. uf_find p x = Some (Inr (r, p')) \<and> root_of p x r \<and> uf_inv p' V
                \<and> (\<forall>z s. root_of p' z s \<longleftrightarrow> root_of p z s)"
  using assms(1)
proof (induction x arbitrary: p rule: wf_induct_rule)
  case (less x)
  obtain px where px: "p x = Some px" using less.prems by (auto simp: uf_inv_def)
  show ?case
  proof (cases "px = x")
    case True
    then show ?thesis
      using px less.prems(1) by (subst uf_find.simps) (auto intro: root_of.at_root)
  next
    case False
    have pxV: "px \<in> V" using px less.prems(1) by (auto simp: uf_inv_def ran_def)
    then obtain ppx where ppx: "p px = Some ppx" using less.prems(1) by (auto simp: uf_inv_def)
    let ?q = "p(x \<mapsto> ppx)"
    note h = halve_keeps_roots[OF less.prems(1) px False ppx]
    have up: "(ppx, x) \<in> R"
      using h(3) less.prems(2) assms(2) by (metis trancl_id trancl_mono)
    have subq: "parent_rel ?q \<subseteq> R"
      using less.prems(2) up by (auto simp: parent_rel_def split: if_splits)
    have ppxV: "ppx \<in> V" using ppx less.prems(1) by (auto simp: uf_inv_def ran_def)
    obtain r p' where res: "uf_find ?q ppx = Some (Inr (r, p'))" "root_of ?q ppx r"
      "uf_inv p' V" "\<forall>z s. root_of p' z s \<longleftrightarrow> root_of ?q z s"
      using less.IH[OF up h(1) subq ppxV] by blast
    have "root_of p ppx r" using res(2) h(2) by simp
    then have "root_of p px r"
      using ppx by (cases "ppx = px") (auto intro: root_of.above)
    then have "root_of p x r" using px False by (auto intro: root_of.above)
    moreover have "uf_find p x = Some (Inr (r, p'))"
      using px False ppx res(1) by (subst uf_find.simps) simp
    ultimately show ?thesis using res(3,4) h(2) by auto
  qed
qed

lemma uf_find_returns:
  assumes "uf_inv p V" "x \<in> V"
  shows "\<exists>r p'. uf_find p x = Some (Inr (r, p')) \<and> root_of p x r \<and> uf_inv p' V
                \<and> (\<forall>z s. root_of p' z s \<longleftrightarrow> root_of p z s)"
proof (rule uf_find_returns_aux[of "(parent_rel p)\<^sup>+"])
  show "wf ((parent_rel p)\<^sup>+)" using assms(1) by (simp add: uf_inv_def wf_trancl)
  show "trans ((parent_rel p)\<^sup>+)" by simp
  show "parent_rel p \<subseteq> (parent_rel p)\<^sup>+" by auto
qed (use assms in auto)


lemma link_roots:
  assumes inv: "uf_inv p V"
    and ra: "p ra = Some ra" and rb: "p rb = Some rb" and ne: "ra \<noteq> rb"
  shows "uf_inv (p(ra \<mapsto> rb)) V"
    and "z \<in> V \<Longrightarrow> root_of (p(ra \<mapsto> rb)) z r \<longleftrightarrow>
           (if root_of p z ra then r = rb else root_of p z r)"
proof -
  let ?q = "p(ra \<mapsto> rb)"
  have raV: "ra \<in> V" and rbV: "rb \<in> V" using ra rb inv by (auto simp: uf_inv_def)
  have rel: "parent_rel ?q = insert (rb, ra) (parent_rel p)"
    using ra ne by (auto simp: parent_rel_def split: if_splits)
  have "(ra, rb) \<notin> (parent_rel p)\<^sup>*"
  proof
    assume "(ra, rb) \<in> (parent_rel p)\<^sup>*"
    then show False
    proof (cases rule: rtranclE)
      case base
      then show ?thesis using ne by simp
    next
      case (step y)
      then show ?thesis using rb by (auto simp: parent_rel_def)
    qed
  qed
  then have wfq: "wf (parent_rel ?q)"
    using inv unfolding rel by (simp add: wf_insert uf_inv_def)
  have "dom ?q = V" using inv raV by (auto simp: uf_inv_def)
  moreover have "ran ?q \<subseteq> V" using inv rbV by (auto simp: uf_inv_def ran_def split: if_splits)
  ultimately show invq: "uf_inv ?q V" using wfq by (simp add: uf_inv_def)
  have keep: "root_of ?q z r" if "root_of p z r" "r \<noteq> ra" for z r
    using that
  proof (induction rule: root_of.induct)
    case (at_root z)
    then show ?case by (auto intro: root_of.at_root)
  next
    case (above z y r)
    then have "z \<noteq> ra" using ra by auto
    then show ?case using above by (auto intro: root_of.above)
  qed
  have rbq: "root_of ?q rb rb" using rb ne by (auto intro: root_of.at_root)
  have move: "root_of ?q z rb" if "root_of p z r" "r = ra" for z r
    using that
  proof (induction rule: root_of.induct)
    case (at_root z)
    have "?q ra = Some rb" by simp
    then have "root_of ?q ra rb" using ne rbq by (intro root_of.above[of ?q ra rb rb]) auto
    moreover have "z = ra" using at_root by simp
    ultimately show ?case by (simp only:)
  next
    case (above z y r)
    then have "z \<noteq> ra" using ra by auto
    then show ?case using above by (auto intro: root_of.above)
  qed
  show "root_of ?q z r \<longleftrightarrow> (if root_of p z ra then r = rb else root_of p z r)" if zV: "z \<in> V"
  proof (cases "root_of p z ra")
    case True
    then have "root_of ?q z rb" using move by blast
    then show ?thesis using True by (auto dest: root_of_det)
  next
    case False
    obtain r0 where r0: "root_of p z r0" using root_of_total[OF inv zV] by blast
    then have "r0 \<noteq> ra" using False by auto
    then have "root_of ?q z r0" using keep r0 by blast
    then show ?thesis using False r0 by (auto dest: root_of_det)
  qed
qed

lemma uf_union_returns:
  assumes inv: "uf_inv p V" and a: "a \<in> V" and b: "b \<in> V"
  shows "\<exists>p'. uf_union p a b = Some (Inr p') \<and> uf_inv p' V
           \<and> (\<forall>x \<in> V. \<forall>y \<in> V. same_root p' x y \<longleftrightarrow>
                  same_root p x y \<or> (same_root p x a \<and> same_root p b y)
                  \<or> (same_root p x b \<and> same_root p a y))"
proof -
  obtain ra p1 where f1: "uf_find p a = Some (Inr (ra, p1))" "root_of p a ra" "uf_inv p1 V"
    "\<forall>z s. root_of p1 z s \<longleftrightarrow> root_of p z s"
    using uf_find_returns[OF inv a] by blast
  obtain rb p2 where f2: "uf_find p1 b = Some (Inr (rb, p2))" "root_of p1 b rb" "uf_inv p2 V"
    "\<forall>z s. root_of p2 z s \<longleftrightarrow> root_of p1 z s"
    using uf_find_returns[OF f1(3) b] by blast
  have same2: "root_of p2 z s \<longleftrightarrow> root_of p z s" for z s using f1(4) f2(4) by simp
  have ra2: "root_of p2 a ra" and rb2: "root_of p2 b rb" using f1(2) f2(2) same2 f2(4) by auto
  have sr: "same_root p2 x y \<longleftrightarrow> same_root p x y" for x y
    by (simp add: same_root_def same2)
  show ?thesis
  proof (cases "ra = rb")
    case True
    have u: "uf_union p a b = Some (Inr p2)"
      using f1(1) f2(1) True by (simp add: uf_union_def)
    have ab: "same_root p a b" using ra2 rb2 True same2 by (auto simp: same_root_def)
    have "same_root p x y \<longleftrightarrow>
            same_root p x y \<or> (same_root p x a \<and> same_root p b y)
            \<or> (same_root p x b \<and> same_root p a y)" for x y
      using ab by (auto simp: same_root_def dest: root_of_det)
    then show ?thesis using u f2(3) sr by auto
  next
    case False
    let ?q = "p2(ra \<mapsto> rb)"
    have u: "uf_union p a b = Some (Inr ?q)"
      using f1(1) f2(1) False by (simp add: uf_union_def)
    have fa: "p2 ra = Some ra" and fb: "p2 rb = Some rb"
      using ra2 rb2 by (auto dest: root_of_fixed)
    note l = link_roots[OF f2(3) fa fb False]
    have "same_root ?q x y \<longleftrightarrow>
            same_root p x y \<or> (same_root p x a \<and> same_root p b y)
            \<or> (same_root p x b \<and> same_root p a y)" if xV: "x \<in> V" and yV: "y \<in> V" for x y
    proof -
      obtain rx where rx: "root_of p2 x rx" using root_of_total[OF f2(3) xV] by blast
      obtain ry where ry: "root_of p2 y ry" using root_of_total[OF f2(3) yV] by blast
      have qx: "root_of ?q x r \<longleftrightarrow> r = (if rx = ra then rb else rx)" for r
        using l(2)[OF xV, of r] rx by (auto dest: root_of_det)
      have qy: "root_of ?q y r \<longleftrightarrow> r = (if ry = ra then rb else ry)" for r
        using l(2)[OF yV, of r] ry by (auto dest: root_of_det)
      have lhs: "same_root ?q x y \<longleftrightarrow> (if rx = ra then rb else rx) = (if ry = ra then rb else ry)"
        by (auto simp: same_root_def qx qy)
      have sxy: "same_root p x y \<longleftrightarrow> rx = ry"
        using rx ry same2 by (auto simp: same_root_def dest: root_of_det)
      have sxa: "same_root p x a \<longleftrightarrow> rx = ra"
        using rx ra2 same2 by (auto simp: same_root_def dest: root_of_det)
      have sxb: "same_root p x b \<longleftrightarrow> rx = rb"
        using rx rb2 same2 by (auto simp: same_root_def dest: root_of_det)
      have say: "same_root p a y \<longleftrightarrow> ry = ra"
        using ry ra2 same2 by (auto simp: same_root_def dest: root_of_det)
      have sby: "same_root p b y \<longleftrightarrow> ry = rb"
        using ry rb2 same2 by (auto simp: same_root_def dest: root_of_det)
      show ?thesis unfolding lhs sxy sxa sxb say sby using False by auto
    qed
    then show ?thesis using u l(1) by auto
  qed
qed

subsection \<open>Connected components of the 1-skeleton\<close>

text \<open>
  The graph of the 1-skeleton: the vertices \<open>V\<close> and, for each 2-tuple among the
  1-simplices, an edge. Two vertices are connected when a path of edges, taken in
  either direction, joins them; the number of components is the number of classes.
\<close>

definition edge_rel :: "'a list list \<Rightarrow> ('a \<times> 'a) set" where
  "edge_rel edges = {(e ! 0, e ! 1) | e. e \<in> set edges \<and> length e = 2}"

definition connected :: "('a \<times> 'a) set \<Rightarrow> ('a \<times> 'a) set" where
  "connected E = (E \<union> E\<inverse>)\<^sup>*"

definition num_components :: "'a set \<Rightarrow> ('a \<times> 'a) set \<Rightarrow> nat" where
  "num_components V E = card (V // connected E)"

lemma connected_refl: "(x, x) \<in> connected E"
  by (simp add: connected_def)

lemma connected_sym: "(x, y) \<in> connected E \<Longrightarrow> (y, x) \<in> connected E"
proof -
  have "sym (E \<union> E\<inverse>)" by (auto simp: sym_def)
  then have "sym ((E \<union> E\<inverse>)\<^sup>*)" by (rule sym_rtrancl)
  then show "(x, y) \<in> connected E \<Longrightarrow> (y, x) \<in> connected E"
    unfolding connected_def by (rule symD)
qed

lemma connected_trans: "(x, y) \<in> connected E \<Longrightarrow> (y, z) \<in> connected E \<Longrightarrow> (x, z) \<in> connected E"
  unfolding connected_def by (rule rtrancl_trans)

lemma connected_class_eq:
  "connected E `` {x} = connected E `` {y} \<longleftrightarrow> (x, y) \<in> connected E"
proof
  assume "connected E `` {x} = connected E `` {y}"
  moreover have "y \<in> connected E `` {y}" by (simp add: connected_refl)
  ultimately show "(x, y) \<in> connected E" by auto
next
  assume "(x, y) \<in> connected E"
  then show "connected E `` {x} = connected E `` {y}"
    by (auto intro: connected_trans connected_sym)
qed

lemma connected_insert:
  "(x, y) \<in> connected (insert (a, b) E) \<longleftrightarrow>
     (x, y) \<in> connected E \<or> ((x, a) \<in> connected E \<and> (b, y) \<in> connected E)
     \<or> ((x, b) \<in> connected E \<and> (a, y) \<in> connected E)"
proof -
  let ?S = "E \<union> E\<inverse>"
  have eq: "insert (a, b) E \<union> (insert (a, b) E)\<inverse> = insert (a, b) (insert (b, a) ?S)"
    by auto
  have "(x, y) \<in> (insert (a, b) (insert (b, a) ?S))\<^sup>* \<longleftrightarrow>
          (x, y) \<in> ?S\<^sup>* \<or> ((x, a) \<in> ?S\<^sup>* \<and> (b, y) \<in> ?S\<^sup>*)
          \<or> ((x, b) \<in> ?S\<^sup>* \<and> (a, y) \<in> ?S\<^sup>*)"
    (is "?L \<longleftrightarrow> ?R")
  proof
    assume ?L
    then show ?R
    proof (induction rule: rtrancl_induct)
      case base
      then show ?case by simp
    next
      case (step y z)
      have cs: "(u, v) \<in> ?S\<^sup>* \<Longrightarrow> (v, u) \<in> ?S\<^sup>*" for u v
        using connected_sym[of u v E] by (simp add: connected_def)
      have ct: "(u, v) \<in> ?S\<^sup>* \<Longrightarrow> (v, w) \<in> ?S\<^sup>* \<Longrightarrow> (u, w) \<in> ?S\<^sup>*" for u v w
        by (rule rtrancl_trans)
      from step.hyps(2) consider "y = a \<and> z = b" | "y = b \<and> z = a" | "(y, z) \<in> ?S" by auto
      then show ?case
      proof cases
        case 1
        then show ?thesis using step.IH by (meson cs ct rtrancl.rtrancl_refl)
      next
        case 2
        then show ?thesis using step.IH by (meson cs ct rtrancl.rtrancl_refl)
      next
        case 3
        then have "(y, z) \<in> ?S\<^sup>*" by auto
        then show ?thesis using step.IH by (meson ct)
      qed
    qed
  next
    assume r: ?R
    have mono: "?S\<^sup>* \<subseteq> (insert (a, b) (insert (b, a) ?S))\<^sup>*"
      by (rule rtrancl_mono) auto
    have ab: "(a, b) \<in> (insert (a, b) (insert (b, a) ?S))\<^sup>*"
      and ba: "(b, a) \<in> (insert (a, b) (insert (b, a) ?S))\<^sup>*" by auto
    from r show ?L
      using mono ab ba by (meson rtrancl_trans subsetD)
  qed
  then show ?thesis unfolding connected_def eq .
qed

lemma edge_rel_Cons:
  "edge_rel (e # es) = (if length e = 2 then insert (e ! 0, e ! 1) (edge_rel es) else edge_rel es)"
  by (auto simp: edge_rel_def)

lemma edges_loop_returns:
  assumes "uf_inv p V"
    and "\<forall>e \<in> set edges. length e = 2 \<longrightarrow> e ! 0 \<in> V \<and> e ! 1 \<in> V"
    and "\<forall>x \<in> V. \<forall>y \<in> V. same_root p x y \<longleftrightarrow> (x, y) \<in> connected E0"
  shows "\<exists>p'. edges_loop edges p = Some (Inr p') \<and> uf_inv p' V
           \<and> (\<forall>x \<in> V. \<forall>y \<in> V. same_root p' x y \<longleftrightarrow> (x, y) \<in> connected (E0 \<union> edge_rel edges))"
  using assms
proof (induction edges arbitrary: p E0)
  case Nil
  then show ?case by (simp add: edge_rel_def)
next
  case (Cons e es)
  show ?case
  proof (cases "length e = 2")
    case False
    then show ?thesis using Cons.IH[OF Cons.prems(1) _ Cons.prems(3)] Cons.prems(2)
      by (simp add: edge_rel_Cons)
  next
    case True
    let ?a = "e ! 0" and ?b = "e ! 1"
    have aV: "?a \<in> V" and bV: "?b \<in> V" using True Cons.prems(2) by auto
    obtain p1 where u: "uf_union p ?a ?b = Some (Inr p1)" "uf_inv p1 V"
      "\<forall>x \<in> V. \<forall>y \<in> V. same_root p1 x y \<longleftrightarrow>
                  same_root p x y \<or> (same_root p x ?a \<and> same_root p ?b y)
                  \<or> (same_root p x ?b \<and> same_root p ?a y)"
      using uf_union_returns[OF Cons.prems(1) aV bV] by blast
    have inv1: "\<forall>x \<in> V. \<forall>y \<in> V. same_root p1 x y \<longleftrightarrow> (x, y) \<in> connected (insert (?a, ?b) E0)"
      using u(3) Cons.prems(3) aV bV by (simp add: connected_insert)
    obtain p' where r: "edges_loop es p1 = Some (Inr p')" "uf_inv p' V"
      "\<forall>x \<in> V. \<forall>y \<in> V. same_root p' x y \<longleftrightarrow>
           (x, y) \<in> connected (insert (?a, ?b) E0 \<union> edge_rel es)"
      using Cons.IH[OF u(2) _ inv1] Cons.prems(2) by auto
    have "insert (?a, ?b) E0 \<union> edge_rel es = E0 \<union> edge_rel (e # es)"
      using True by (auto simp: edge_rel_Cons)
    then show ?thesis using r u(1) True by auto
  qed
qed

lemma roots_loop_returns:
  assumes "uf_inv p V" "set vs \<subseteq> V"
  shows "\<exists>rs. roots_loop vs p = Some (Inr rs) \<and> list_all2 (root_of p) vs rs"
  using assms
proof (induction vs arbitrary: p)
  case Nil
  then show ?case by simp
next
  case (Cons v vs)
  obtain r p1 where f: "uf_find p v = Some (Inr (r, p1))" "root_of p v r" "uf_inv p1 V"
    "\<forall>z s. root_of p1 z s \<longleftrightarrow> root_of p z s"
    using uf_find_returns[OF Cons.prems(1), of v] Cons.prems(2) by auto
  obtain rs where rs: "roots_loop vs p1 = Some (Inr rs)" "list_all2 (root_of p1) vs rs"
    using Cons.IH[OF f(3)] Cons.prems(2) by auto
  have "root_of p1 = root_of p" using f(4) by (intro ext) simp
  then show ?case using f(1,2) rs by simp
qed




lemma card_image_same_kernel:
  assumes "\<forall>x \<in> V. \<forall>y \<in> V. f x = f y \<longleftrightarrow> g x = g y"
  shows "card (f ` V) = card (g ` V)"
proof -
  define h where "h a = g (SOME x. x \<in> V \<and> f x = a)" for a
  have hf: "h (f x) = g x" if "x \<in> V" for x
  proof -
    define z where "z = (SOME z. z \<in> V \<and> f z = f x)"
    have "\<exists>z. z \<in> V \<and> f z = f x" using that by blast
    then have "z \<in> V \<and> f z = f x"
      unfolding z_def by (rule someI_ex)
    then have "g z = g x" using assms that by blast
    then show ?thesis by (simp add: h_def z_def)
  qed
  have "bij_betw h (f ` V) (g ` V)"
    unfolding bij_betw_def
  proof
    show "inj_on h (f ` V)" using hf assms by (auto simp: inj_on_def)
    show "h ` f ` V = g ` V" using hf by (auto simp: image_iff)
  qed
  then show ?thesis by (rule bij_betw_same_card)
qed

lemma list_all2_functional:
  assumes "list_all2 P xs ys" "\<forall>x \<in> set xs. \<forall>y. P x y \<longleftrightarrow> y = f x"
  shows "ys = map f xs"
  using assms by (induction rule: list_all2_induct) auto

lemma connected_empty: "(x, y) \<in> connected {} \<longleftrightarrow> x = y"
  by (simp add: connected_def)

lemma count_components_correct:
  fixes k_simplices :: "'a list list"
  defines "V \<equiv> set (map (\<lambda>s. s ! 0) k_simplices)"
  assumes ne: "\<forall>s \<in> set k_simplices. s \<noteq> []"
    and ed: "\<forall>e \<in> set edges. length e = 2 \<longrightarrow> e ! 0 \<in> V \<and> e ! 1 \<in> V"
  shows "count_components k_simplices edges = Some (Inr (int (num_components V (edge_rel edges))))"
proof -
  let ?vs = "remdups (map (\<lambda>s. s ! 0) k_simplices)"
  let ?p0 = "map_of (map (\<lambda>v. (v, v)) ?vs)"
  have p0: "?p0 v = (if v \<in> V then Some v else None)" for v
    by (auto simp: V_def map_of_eq_None_iff image_iff intro!: map_of_is_SomeI simp: distinct_map inj_on_def o_def)
  have rel0: "parent_rel ?p0 = {}" by (auto simp: parent_rel_def p0 split: if_splits)
  have inv0: "uf_inv ?p0 V"
    by (auto simp: uf_inv_def rel0 dom_def ran_def p0 split: if_splits)
  have root0: "root_of ?p0 x r \<longleftrightarrow> x \<in> V \<and> r = x" for x r
  proof
    assume "root_of ?p0 x r"
    then show "x \<in> V \<and> r = x"
      by (induction rule: root_of.induct) (auto simp: p0 split: if_splits)
  next
    assume "x \<in> V \<and> r = x"
    then show "root_of ?p0 x r" by (auto intro!: root_of.at_root simp: p0)
  qed
  have same0: "\<forall>x \<in> V. \<forall>y \<in> V. same_root ?p0 x y \<longleftrightarrow> (x, y) \<in> connected {}"
    by (auto simp: same_root_def root0 connected_empty)
  obtain p' where e: "edges_loop edges ?p0 = Some (Inr p')" "uf_inv p' V"
    "\<forall>x \<in> V. \<forall>y \<in> V. same_root p' x y \<longleftrightarrow> (x, y) \<in> connected ({} \<union> edge_rel edges)"
    using edges_loop_returns[OF inv0 ed same0] by blast
  have vsV: "set ?vs = V" by (simp add: V_def)
  obtain rs where r: "roots_loop ?vs p' = Some (Inr rs)" "list_all2 (root_of p') ?vs rs"
    using roots_loop_returns[OF e(2), of ?vs] vsV by auto
  define f where "f v = (THE r. root_of p' v r)" for v
  have f: "root_of p' v s \<longleftrightarrow> s = f v" if vV: "v \<in> V" for v s
  proof -
    obtain r0 where r0: "root_of p' v r0" using root_of_total[OF e(2) vV] by blast
    then have "f v = r0" unfolding f_def by (intro the_equality) (auto dest: root_of_det)
    then show ?thesis using r0 by (auto dest: root_of_det)
  qed
  have "rs = map f ?vs"
    using r(2) vsV f by (intro list_all2_functional[of "root_of p'"]) auto
  then have "set rs = f ` V" using vsV by simp
  then have "length (remdups rs) = card (f ` V)" by (simp add: length_remdups_card_conv)
  also have "\<dots> = card ((\<lambda>v. connected (edge_rel edges) `` {v}) ` V)"
  proof (rule card_image_same_kernel, intro ballI)
    fix x y assume xy: "x \<in> V" "y \<in> V"
    have "f x = f y \<longleftrightarrow> same_root p' x y"
      using f[OF xy(1)] f[OF xy(2)] by (auto simp: same_root_def)
    also have "\<dots> \<longleftrightarrow> (x, y) \<in> connected (edge_rel edges)" using e(3) xy by simp
    finally show "f x = f y \<longleftrightarrow>
        connected (edge_rel edges) `` {x} = connected (edge_rel edges) `` {y}"
      by (simp add: connected_class_eq)
  qed
  also have "\<dots> = num_components V (edge_rel edges)"
  proof -
    have "V // connected (edge_rel edges) = (\<lambda>v. connected (edge_rel edges) `` {v}) ` V"
      by (auto simp: quotient_def)
    then show ?thesis by (simp add: num_components_def)
  qed
  finally have len: "length (remdups rs) = num_components V (edge_rel edges)" .
  have "\<not> list_ex (\<lambda>s. s = []) k_simplices" using ne by (simp add: list_ex_iff)
  then show ?thesis
    using e(1) r(1) len by (simp add: count_components_def Let_def)
qed




subsection \<open>The simplices of a list of bookings\<close>

lemma combinations_iff: "c \<in> set (combinations xs k) \<longleftrightarrow> subseq c xs \<and> length c = k"
proof (induction xs k arbitrary: c rule: combinations.induct)
  case (1 xs)
  then show ?case by auto
next
  case (2 k)
  then show ?case by auto
next
  case (3 x xs k)
  show ?case
  proof
    assume "c \<in> set (combinations (x # xs) (Suc k))"
    then show "subseq c (x # xs) \<and> length c = Suc k"
      using 3 by (auto intro: subseq_Cons2 subseq_Cons')
  next
    assume a: "subseq c (x # xs) \<and> length c = Suc k"
    then obtain y ys where c: "c = y # ys" by (cases c) auto
    show "c \<in> set (combinations (x # xs) (Suc k))"
    proof (cases "y = x")
      case True
      then have "subseq ys xs" using a c by simp
      then show ?thesis using 3 a c True by auto
    next
      case False
      then have "subseq c xs" using a c by (simp add: subseq_Cons2_neq)
      then show ?thesis using 3 a by auto
    qed
  qed
qed

lemma simplices_get_update:
  "simplices_get (AList.update k v d) j = (if j = k then v else simplices_get d j)"
  by (simp add: simplices_get_def update_conv')

lemma simplices_get_extend:
  "simplices_get (dd_extend d k xs) j
     = (if j = k then simplices_get d k @ xs else simplices_get d j)"
  by (simp add: dd_extend_def simplices_get_update) (simp add: simplices_get_def)

lemma combinations_short:
  assumes "length xs < k"
  shows "combinations xs k = []"
proof (rule ccontr)
  assume "combinations xs k \<noteq> []"
  then obtain c where "c \<in> set (combinations xs k)" by (cases "combinations xs k") auto
  then have "subseq c xs" "length c = k" by (simp_all add: combinations_iff)
  then show False using assms list_emb_length[of "(=)" c xs] by simp
qed

lemma booking_loop_get:
  "simplices_get (snd (booking_loop bs ents sbd)) k
     = simplices_get sbd k
       @ (if k \<in> {1, 2, 3} then concat (map (\<lambda>b. combinations (all_entities b) (Suc k)) bs) else [])"
proof (induction bs arbitrary: ents sbd)
  case Nil
  then show ?case by simp
next
  case (Cons b bs)
  have four: "combinations (all_entities b) 4 = []" if "\<not> 4 \<le> length (all_entities b)"
    using that by (intro combinations_short) simp
  show ?case
    using four
    by (simp add: Let_def Cons.IH simplices_get_extend numeral_2_eq_2 numeral_3_eq_3 eval_nat_numeral)
qed

lemma booking_loop_entities:
  "set (fst (booking_loop bs ents sbd)) = set ents \<union> (\<Union>b \<in> set bs. set (all_entities b))"
proof (induction bs arbitrary: ents sbd)
  case Nil
  then show ?case by simp
next
  case (Cons b bs)
  have "set (fold List.insert xs ys) = set xs \<union> set ys" for xs ys :: "string list"
    by (induction xs arbitrary: ys) auto
  then show ?case by (auto simp: Let_def Cons.IH)
qed

lemma booking_loop_distinct:
  "distinct ents \<Longrightarrow> distinct (fst (booking_loop bs ents sbd))"
proof (induction bs arbitrary: ents sbd)
  case Nil
  then show ?case by simp
next
  case (Cons b bs)
  have "distinct ys \<Longrightarrow> distinct (fold List.insert xs ys)" for xs ys :: "string list"
    by (induction xs arbitrary: ys) auto
  then show ?case using Cons by (simp add: Let_def)
qed

lemma simplices_get_dedup:
  "simplices_get (dedup_simplices sbd) k = remdups (map sort (simplices_get sbd k))"
  by (induction sbd) (auto simp: dedup_simplices_def simplices_get_def)

lemma booking_simplices_get:
  "simplices_get (snd (booking_simplices bs)) k =
     (if k = 0 then map (\<lambda>e. [e]) (fst (booking_simplices bs))
      else if k \<le> 3 then
        remdups (map sort (concat (map (\<lambda>b. combinations (all_entities b) (Suc k)) bs)))
      else [])"
proof -
  obtain entities sbd where l: "booking_loop bs [] [] = (entities, sbd)" by (cases "booking_loop bs [] []")
  have g: "simplices_get sbd k
             = (if k \<in> {1, 2, 3} then concat (map (\<lambda>b. combinations (all_entities b) (Suc k)) bs) else [])"
    using booking_loop_get[of bs "[]" "[]" k] l by (simp add: simplices_get_def)
  have "k \<le> 3 \<and> k \<noteq> 0 \<longleftrightarrow> k \<in> {1, 2, 3}" by auto
  then show ?thesis
    using g by (auto simp: booking_simplices_def l simplices_get_update simplices_get_dedup)
qed

lemma booking_simplices_entities:
  "set (fst (booking_simplices bs)) = (\<Union>b \<in> set bs. set (all_entities b))"
  "distinct (fst (booking_simplices bs))"
proof -
  obtain entities sbd where l: "booking_loop bs [] [] = (entities, sbd)" by (cases "booking_loop bs [] []")
  show "set (fst (booking_simplices bs)) = (\<Union>b \<in> set bs. set (all_entities b))"
    using booking_loop_entities[of bs "[]" "[]"] l by (simp add: booking_simplices_def)
  show "distinct (fst (booking_simplices bs))"
    using booking_loop_distinct[of "[]" bs "[]"] l by (simp add: booking_simplices_def)
qed




subsection \<open>The Betti numbers of a complex\<close>

lemma beta_key_inj: "beta_key a = beta_key b \<Longrightarrow> a = b"
proof -
  assume "beta_key a = beta_key b"
  then have "str_nat a = str_nat b" by (simp add: beta_key_def)
  then have "digits_value (str_nat a) = digits_value (str_nat b)" by simp
  then show "a = b" by (simp only: digits_value_str_nat)
qed

lemma beta_key_distinct: "distinct ks \<Longrightarrow> distinct (map beta_key ks)"
  by (simp add: distinct_map inj_on_def beta_key_inj)

lemma subseq_set: "subseq xs ys \<Longrightarrow> set xs \<subseteq> set ys"
proof
  fix x assume "subseq xs ys" "x \<in> set xs"
  then obtain y where "y \<in> set ys" "x = y" by (rule list_emb_set)
  then show "x \<in> set ys" by simp
qed

lemma betti_entry_higher:
  assumes "1 \<le> k"
  shows "betti_entry sbd k =
     Some (Inr (max 0 (int (length (simplices_get sbd k))
                       - int (length (simplices_get sbd (k - 1)))
                       - int (length (simplices_get sbd (k + 1))))))"
  using assms by (simp add: betti_entry_def Let_def)

lemma num_components_empty: "num_components {} E = 0"
  by (simp add: num_components_def quotient_def)

lemma betti_entry_zero:
  assumes "\<forall>s \<in> set (simplices_get sbd 0). s \<noteq> []"
    and "\<forall>e \<in> set (simplices_get sbd 1). length e = 2 \<longrightarrow>
           e ! 0 \<in> set (map (\<lambda>s. s ! 0) (simplices_get sbd 0))
           \<and> e ! 1 \<in> set (map (\<lambda>s. s ! 0) (simplices_get sbd 0))"
  shows "betti_entry sbd 0 =
     Some (Inr (int (num_components (set (map (\<lambda>s. s ! 0) (simplices_get sbd 0)))
                                    (edge_rel (simplices_get sbd 1)))))"
proof (cases "simplices_get sbd 0 = []")
  case True
  then show ?thesis by (simp add: betti_entry_def num_components_empty)
next
  case False
  then show ?thesis
    using count_components_correct[OF assms] by (simp add: betti_entry_def)
qed

lemma betti_loop_ok:
  assumes "\<forall>k \<in> set ks. betti_entry sbd k = Some (Inr (g k))"
  shows "betti_loop sbd ks acc = Some (Inr (fold (\<lambda>k. AList.update (beta_key k) (g k)) ks acc))"
  using assms by (induction ks arbitrary: acc) simp_all

lemma compute_betti_numbers_ok:
  assumes "\<forall>k \<le> Max (set (map fst sbd)). betti_entry sbd k = Some (Inr (g k))" "sbd \<noteq> []"
  shows "compute_betti_numbers sbd =
           Some (Inr (map (\<lambda>k. (beta_key k, g k)) [0..<Max (set (map fst sbd)) + 1]))"
proof -
  define ks where "ks = [0..<Max (set (map fst sbd)) + 1]"
  have d: "distinct (map beta_key ks)"
    unfolding ks_def by (rule beta_key_distinct) (rule distinct_upt)
  have "beta_key ` set ks \<inter> fst ` set ([] :: (string \<times> int) list) = {}" by simp
  then have f: "fold (\<lambda>k. AList.update (beta_key k) (g k)) ks [] = [] @ map (\<lambda>k. (beta_key k, g k)) ks"
    using d by (intro fold_update_fresh)
  have "betti_entry sbd k = Some (Inr (g k))" if "k \<in> set ks" for k
  proof -
    from that have "k \<le> Max (set (map fst sbd))" unfolding ks_def by (simp del: upt_Suc)
    then show ?thesis using assms(1) by blast
  qed
  then have "\<forall>k \<in> set ks. betti_entry sbd k = Some (Inr (g k))" by blast
  then have "betti_loop sbd ks [] = Some (Inr (fold (\<lambda>k. AList.update (beta_key k) (g k)) ks []))"
    by (rule betti_loop_ok)
  then have l: "betti_loop sbd ks [] = Some (Inr (map (\<lambda>k. (beta_key k, g k)) ks))"
    unfolding f by (simp only: append_Nil)
  have "compute_betti_numbers sbd = betti_loop sbd ks []"
    using assms(2) unfolding compute_betti_numbers_def Let_def ks_def by (simp del: upt_Suc)
  also note l
  finally show ?thesis unfolding ks_def .
qed




text \<open>The Betti number that the source computes for dimension \<open>k\<close> of a complex.\<close>

definition betti_value :: "complex \<Rightarrow> nat \<Rightarrow> int" where
  "betti_value sbd k =
     (if k = 0 then
        int (num_components (set (map (\<lambda>s. s ! 0) (simplices_get sbd 0)))
                            (edge_rel (simplices_get sbd 1)))
      else max 0 (int (length (simplices_get sbd k))
                  - int (length (simplices_get sbd (k - 1)))
                  - int (length (simplices_get sbd (k + 1)))))"

lemma sort_pair_nth:
  fixes c :: "string list"
  assumes "length c = 2"
  shows "length (sort c) = 2" "sort c ! 0 \<in> set c" "sort c ! 1 \<in> set c"
proof -
  show l: "length (sort c) = 2" using assms by simp
  have "sort c ! 0 \<in> set (sort c)" "sort c ! 1 \<in> set (sort c)"
    using l by (simp_all only: nth_mem)
  then show "sort c ! 0 \<in> set c" "sort c ! 1 \<in> set c" by simp_all
qed

lemma booking_complex_wellformed:
  fixes bs :: "booking list"
  defines "sbd \<equiv> \<lambda>bs. snd (booking_simplices bs)"
  shows "\<forall>s \<in> set (simplices_get (sbd bs) 0). s \<noteq> []"
    and "\<forall>e \<in> set (simplices_get (sbd bs) 1). length e = 2 \<longrightarrow>
           e ! 0 \<in> set (map (\<lambda>s. s ! 0) (simplices_get (sbd bs) 0))
           \<and> e ! 1 \<in> set (map (\<lambda>s. s ! 0) (simplices_get (sbd bs) 0))"
proof -
  show "\<forall>s \<in> set (simplices_get (sbd bs) 0). s \<noteq> []"
    by (auto simp: sbd_def booking_simplices_get)
  have v: "set (map (\<lambda>s. s ! 0) (simplices_get (sbd bs) 0)) = (\<Union>b \<in> set bs. set (all_entities b))"
    by (simp add: sbd_def booking_simplices_get o_def booking_simplices_entities)
  show "\<forall>e \<in> set (simplices_get (sbd bs) 1). length e = 2 \<longrightarrow>
           e ! 0 \<in> set (map (\<lambda>s. s ! 0) (simplices_get (sbd bs) 0))
           \<and> e ! 1 \<in> set (map (\<lambda>s. s ! 0) (simplices_get (sbd bs) 0))"
  proof (intro ballI impI)
    fix e assume "e \<in> set (simplices_get (sbd bs) 1)"
    then obtain b c where bc: "b \<in> set bs" "c \<in> set (combinations (all_entities b) 2)" "e = sort c"
      by (auto simp: sbd_def booking_simplices_get numeral_2_eq_2)
    then have c: "subseq c (all_entities b)" "length c = 2" by (simp_all add: combinations_iff)
    have "set c \<subseteq> set (all_entities b)" using c(1) by (rule subseq_set)
    then have "set c \<subseteq> (\<Union>b \<in> set bs. set (all_entities b))" using bc(1) by auto
    then have "sort c ! 0 \<in> (\<Union>b \<in> set bs. set (all_entities b))"
      "sort c ! 1 \<in> (\<Union>b \<in> set bs. set (all_entities b))"
      using sort_pair_nth(2,3)[OF c(2)] by (meson subsetD)+
    then show "e ! 0 \<in> set (map (\<lambda>s. s ! 0) (simplices_get (sbd bs) 0))
           \<and> e ! 1 \<in> set (map (\<lambda>s. s ! 0) (simplices_get (sbd bs) 0))"
      unfolding v bc(3) by (rule conjI)
  qed
qed




lemma booking_simplices_nonempty: "snd (booking_simplices bs) \<noteq> []"
  by (cases "booking_loop bs [] []") (auto simp: booking_simplices_def)

lemma build_returns:
  "build_booking_simplicial_complex bs =
     Some (Inr \<lparr>simplices = snd (booking_simplices bs),
                counts = map (\<lambda>(k, simps). (''dim_'' @ str_nat k, int (length simps)))
                           (snd (booking_simplices bs)),
                num_entities = int (length (fst (booking_simplices bs))),
                betti_numbers = map (\<lambda>k. (beta_key k, betti_value (snd (booking_simplices bs)) k))
                                  [0..<Max (set (map fst (snd (booking_simplices bs)))) + 1]\<rparr>)"
proof -
  let ?sbd = "snd (booking_simplices bs)"
  have "betti_entry ?sbd k = Some (Inr (betti_value ?sbd k))" for k
  proof (cases "k = 0")
    case True
    then show ?thesis
      using betti_entry_zero[OF booking_complex_wellformed(1)[of bs]
              booking_complex_wellformed(2)[of bs]]
      by (simp add: betti_value_def)
  next
    case False
    then show ?thesis using betti_entry_higher[of k ?sbd] by (simp add: betti_value_def)
  qed
  then have "compute_betti_numbers ?sbd =
           Some (Inr (map (\<lambda>k. (beta_key k, betti_value ?sbd k))
                        [0..<Max (set (map fst ?sbd)) + 1]))"
    using booking_simplices_nonempty by (intro compute_betti_numbers_ok) auto
  then show ?thesis
    by (cases "booking_simplices bs") (simp add: build_booking_simplicial_complex_def)
qed

lemma map_of_beta:
  "k \<in> set ks \<Longrightarrow> map_of (map (\<lambda>k. (beta_key k, g k)) ks) (beta_key k) = Some (g k)"
  by (rule map_of_keyed) (auto dest: beta_key_inj)




subsection \<open>A single four-way booking\<close>

text \<open>
  \<open>four_way\<close> is a booking with one vendor and \<open>five_way\<close> one with two vendors, used
  in the concrete runs below.
\<close>

definition four_way :: booking where
  "four_way = \<lparr>venue_id = ''u'', event_id = ''e'', timeslot_id = Some ''t'',
                vendor_ids = Some [''v'']\<rparr>"

definition five_way :: booking where
  "five_way = \<lparr>venue_id = ''u'', event_id = ''e'', timeslot_id = Some ''t'',
                vendor_ids = Some [''v'', ''w'']\<rparr>"

lemma entity_order:
  "''event:'' @ e < ''timeslot:'' @ t" "''event:'' @ e < ''vendor:'' @ v"
  "''event:'' @ e < ''venue:'' @ u" "''timeslot:'' @ t < ''vendor:'' @ v"
  "''timeslot:'' @ t < ''venue:'' @ u" "''vendor:'' @ v < ''venue:'' @ u"
  by simp_all

lemma four_entities:
  "all_entities \<lparr>venue_id = u, event_id = e, timeslot_id = ts, vendor_ids = Some [v]\<rparr>
    = [''venue:'' @ u, ''event:'' @ e, ''timeslot:'' @ get_default ts ''default'', ''vendor:'' @ v]"
  by (simp add: all_entities_def get_default_def)


lemma four_combinations:
  "combinations [A, B, C, D] 2 = [[A, B], [A, C], [A, D], [B, C], [B, D], [C, D]]"
  "combinations [A, B, C, D] 3 = [[A, B, C], [A, B, D], [A, C, D], [B, C, D]]"
  "combinations [A, B, C, D] 4 = [[A, B, C, D]]"
  by (simp_all add: numeral_2_eq_2 numeral_3_eq_3 eval_nat_numeral)

lemma sort_known:
  fixes xs ys :: "string list"
  assumes "mset ys = mset xs" "sorted ys"
  shows "sort xs = ys"
  using assms by (rule properties_for_sort)

lemma four_sorted:
  fixes A B C D :: string
  assumes "B < C" "C < D" "D < A"
  shows "map sort (combinations [A, B, C, D] 2) = [[B, A], [C, A], [D, A], [B, C], [B, D], [C, D]]"
    and "map sort (combinations [A, B, C, D] 3) = [[B, C, A], [B, D, A], [C, D, A], [B, C, D]]"
    and "map sort (combinations [A, B, C, D] 4) = [[B, C, D, A]]"
proof -
  have le: "B \<le> C" "C \<le> D" "D \<le> A" "B \<le> D" "B \<le> A" "C \<le> A"
    using assms by auto
  have s2: "sort [A, B] = [B, A]" "sort [A, C] = [C, A]" "sort [A, D] = [D, A]"
    "sort [B, C] = [B, C]" "sort [B, D] = [B, D]" "sort [C, D] = [C, D]"
    using le by (auto intro!: sort_known)
  have s3: "sort [A, B, C] = [B, C, A]" "sort [A, B, D] = [B, D, A]"
    "sort [A, C, D] = [C, D, A]" "sort [B, C, D] = [B, C, D]"
    using le by (auto intro!: sort_known)
  have s4: "sort [A, B, C, D] = [B, C, D, A]"
    using le by (auto intro!: sort_known)
  show "map sort (combinations [A, B, C, D] 2) = [[B, A], [C, A], [D, A], [B, C], [B, D], [C, D]]"
    unfolding four_combinations by (simp only: list.map s2)
  show "map sort (combinations [A, B, C, D] 3) = [[B, C, A], [B, D, A], [C, D, A], [B, C, D]]"
    unfolding four_combinations by (simp only: list.map s3)
  show "map sort (combinations [A, B, C, D] 4) = [[B, C, D, A]]"
    unfolding four_combinations by (simp only: list.map s4)
qed




lemma beta_key_zero: "beta_key 0 = ''beta_0''"
  by code_simp

lemma four_distinct:
  fixes A B C D :: string
  assumes "B < C" "C < D" "D < A"
  shows "A \<noteq> B" "A \<noteq> C" "A \<noteq> D" "B \<noteq> C" "B \<noteq> D" "C \<noteq> D"
proof -
  have "B < D" using assms(1,2) by (rule less_trans)
  then have "B < A" using assms(3) by (rule less_trans)
  have "C < A" using assms(2,3) by (rule less_trans)
  show "A \<noteq> B" using \<open>B < A\<close> by (rule less_imp_neq[symmetric])
  show "A \<noteq> C" using \<open>C < A\<close> by (rule less_imp_neq[symmetric])
  show "A \<noteq> D" using \<open>D < A\<close> by (rule less_imp_neq[symmetric])
  show "B \<noteq> C" using \<open>B < C\<close> by (rule less_imp_neq)
  show "B \<noteq> D" using \<open>B < D\<close> by (rule less_imp_neq)
  show "C \<noteq> D" using \<open>C < D\<close> by (rule less_imp_neq)
qed




lemma num_components_single:
  assumes "a \<in> V" "\<forall>x \<in> V. (x, a) \<in> connected E"
  shows "num_components V E = 1"
proof -
  have cls: "connected E `` {x} = connected E `` {a}" if "x \<in> V" for x
  proof -
    have "(x, a) \<in> connected E" using that assms(2) by blast
    then show ?thesis by (simp only: connected_class_eq)
  qed
  have "V // connected E = {connected E `` {a}}"
  proof (rule set_eqI, rule iffI)
    fix c assume "c \<in> V // connected E"
    then obtain x where "x \<in> V" "c = connected E `` {x}" by (rule quotientE)
    then show "c \<in> {connected E `` {a}}" using cls by simp
  next
    fix c assume "c \<in> {connected E `` {a}}"
    then have "c = connected E `` {a}" by simp
    then show "c \<in> V // connected E" using assms(1) by (simp only: quotientI)
  qed
  then show ?thesis by (simp add: num_components_def)
qed




lemma four_way_complex:
  fixes A B C D :: string
  assumes o: "B < C" "C < D" "D < A" and ents: "all_entities b = [A, B, C, D]"
  shows "simplices_get (snd (booking_simplices [b])) 1
           = [[B, A], [C, A], [D, A], [B, C], [B, D], [C, D]]"
    and "simplices_get (snd (booking_simplices [b])) 2
           = [[B, C, A], [B, D, A], [C, D, A], [B, C, D]]"
    and "simplices_get (snd (booking_simplices [b])) 3 = [[B, C, D, A]]"
    and "simplices_get (snd (booking_simplices [b])) 0 = map (\<lambda>e. [e]) (fst (booking_simplices [b]))"
    and "set (fst (booking_simplices [b])) = {A, B, C, D}"
    and "length (fst (booking_simplices [b])) = 4"
proof -
  note ne = four_distinct[OF o]
  note fs = four_sorted[OF o]
  have d1: "distinct [[B, A], [C, A], [D, A], [B, C], [B, D], [C, D]]" using ne by simp
  have d2: "distinct [[B, C, A], [B, D, A], [C, D, A], [B, C, D]]" using ne by simp
  have g1: "simplices_get (snd (booking_simplices [b])) 1
              = remdups (map sort (concat (map (\<lambda>b. combinations (all_entities b) (Suc 1)) [b])))"
    by (subst booking_simplices_get) simp
  have g2: "simplices_get (snd (booking_simplices [b])) 2
              = remdups (map sort (concat (map (\<lambda>b. combinations (all_entities b) (Suc 2)) [b])))"
    by (subst booking_simplices_get) simp
  have g3: "simplices_get (snd (booking_simplices [b])) 3
              = remdups (map sort (concat (map (\<lambda>b. combinations (all_entities b) (Suc 3)) [b])))"
    by (subst booking_simplices_get) simp
  have n: "Suc 1 = 2" "Suc 2 = 3" "Suc 3 = 4" by simp_all
  show "simplices_get (snd (booking_simplices [b])) 1
           = [[B, A], [C, A], [D, A], [B, C], [B, D], [C, D]]"
    unfolding g1 n by (simp only: list.map concat.simps append_Nil2 ents fs(1) distinct_remdups_id[OF d1])
  show "simplices_get (snd (booking_simplices [b])) 2
           = [[B, C, A], [B, D, A], [C, D, A], [B, C, D]]"
    unfolding g2 n by (simp only: list.map concat.simps append_Nil2 ents fs(2) distinct_remdups_id[OF d2])
  show "simplices_get (snd (booking_simplices [b])) 3 = [[B, C, D, A]]"
    unfolding g3 n by (simp only: list.map concat.simps append_Nil2 ents fs(3) remdups.simps list.set empty_iff if_False)
  show "simplices_get (snd (booking_simplices [b])) 0 = map (\<lambda>e. [e]) (fst (booking_simplices [b]))"
    by (subst booking_simplices_get) simp
  show s: "set (fst (booking_simplices [b])) = {A, B, C, D}"
    by (simp add: booking_simplices_entities(1) ents)
  have "card {A, B, C, D} = 4" using ne by simp
  then have "card (set (fst (booking_simplices [b]))) = 4" unfolding s .
  then show "length (fst (booking_simplices [b])) = 4"
    using distinct_card[OF booking_simplices_entities(2)[of "[b]"]] by simp
qed

lemma four_way_connected:
  fixes A B C D :: string
  shows "num_components {A, B, C, D}
           (edge_rel [[B, A], [C, A], [D, A], [B, C], [B, D], [C, D]]) = 1"
proof (rule num_components_single[of A])
  show "A \<in> {A, B, C, D}" by simp
  let ?E = "edge_rel [[B, A], [C, A], [D, A], [B, C], [B, D], [C, D]]"
  have "(B, A) \<in> ?E" "(C, A) \<in> ?E" "(D, A) \<in> ?E"
    by (simp_all add: edge_rel_Cons)
  then have "(B, A) \<in> connected ?E" "(C, A) \<in> connected ?E" "(D, A) \<in> connected ?E"
    unfolding connected_def by blast+
  then show "\<forall>x \<in> {A, B, C, D}. (x, A) \<in> connected ?E"
    by (simp add: connected_refl)
qed




subsection \<open>The Betti numbers of a relation-derived complex\<close>

text \<open>
  Claim C4. For every list of bookings the builder returns, and in its result:
  \<open>betti_numbers\<close> has one entry \<open>beta_k\<close> for each \<open>k\<close> up to the largest dimension
  of the complex; \<open>beta_0\<close> is the number of connected components of the graph whose
  vertices are the 0-simplices and whose edges are the 1-simplices; and for every
  \<open>k \<ge> 1\<close> in that range \<open>beta_k\<close> is
  \<open>max(0, |k-simplices| - |(k-1)-simplices| - |(k+1)-simplices|)\<close>. A single booking
  with one vendor, over any identifiers, has 4 vertices, 6 edges, 4 triangles and 1
  tetrahedron, and \<open>beta_0 = 1\<close>. The union-find that computes \<open>beta_0\<close> is proved
  correct for the simplices in any order (\<open>count_components_correct\<close>).
\<close>

theorem betti_numbers_of_bookings:
  "(\<exists>out. build_booking_simplicial_complex bookings = Some (Inr out)
      \<and> map fst (betti_numbers out)
          = map beta_key [0..<Max (set (map fst (simplices out))) + 1]
      \<and> map_of (betti_numbers out) ''beta_0''
          = Some (int (num_components
                         (set (map (\<lambda>s. s ! 0) (simplices_get (simplices out) 0)))
                         (edge_rel (simplices_get (simplices out) 1))))
      \<and> (\<forall>k. 1 \<le> k \<and> k \<le> Max (set (map fst (simplices out))) \<longrightarrow>
             map_of (betti_numbers out) (beta_key k)
               = Some (max 0 (int (length (simplices_get (simplices out) k))
                              - int (length (simplices_get (simplices out) (k - 1)))
                              - int (length (simplices_get (simplices out) (k + 1)))))))
   \<and> (\<exists>out. build_booking_simplicial_complex
                [\<lparr>venue_id = u, event_id = e, timeslot_id = ts, vendor_ids = Some [v]\<rparr>]
              = Some (Inr out)
          \<and> length (simplices_get (simplices out) 0) = 4
          \<and> length (simplices_get (simplices out) 1) = 6
          \<and> length (simplices_get (simplices out) 2) = 4
          \<and> length (simplices_get (simplices out) 3) = 1
          \<and> map_of (betti_numbers out) ''beta_0'' = Some 1)"
proof (rule conjI)
  let ?sbd = "snd (booking_simplices bookings)"
  let ?M = "Max (set (map fst ?sbd))"
  let ?betti = "map (\<lambda>k. (beta_key k, betti_value ?sbd k)) [0..<?M + 1]"
  have keys: "map fst ?betti = map beta_key [0..<?M + 1]"
    by (simp add: o_def del: upt_Suc)
  have zero: "map_of ?betti (beta_key 0) = Some (betti_value ?sbd 0)"
    by (rule map_of_beta) (simp del: upt_Suc)
  have higher: "map_of ?betti (beta_key k) = Some (betti_value ?sbd k)" if "k \<le> ?M" for k
    by (rule map_of_beta) (use that in \<open>simp del: upt_Suc\<close>)
  show "\<exists>out. build_booking_simplicial_complex bookings = Some (Inr out)
      \<and> map fst (betti_numbers out)
          = map beta_key [0..<Max (set (map fst (simplices out))) + 1]
      \<and> map_of (betti_numbers out) ''beta_0''
          = Some (int (num_components
                         (set (map (\<lambda>s. s ! 0) (simplices_get (simplices out) 0)))
                         (edge_rel (simplices_get (simplices out) 1))))
      \<and> (\<forall>k. 1 \<le> k \<and> k \<le> Max (set (map fst (simplices out))) \<longrightarrow>
             map_of (betti_numbers out) (beta_key k)
               = Some (max 0 (int (length (simplices_get (simplices out) k))
                              - int (length (simplices_get (simplices out) (k - 1)))
                              - int (length (simplices_get (simplices out) (k + 1))))))"
  proof -
    define out where "out = \<lparr>simplices = ?sbd,
                counts = map (\<lambda>(k, simps). (''dim_'' @ str_nat k, int (length simps))) ?sbd,
                num_entities = int (length (fst (booking_simplices bookings))),
                betti_numbers = ?betti\<rparr>"
    have run: "build_booking_simplicial_complex bookings = Some (Inr out)"
      unfolding out_def by (rule build_returns)
    have sel: "simplices out = ?sbd" "betti_numbers out = ?betti" by (simp_all add: out_def)
    have c1: "map fst (betti_numbers out)
          = map beta_key [0..<Max (set (map fst (simplices out))) + 1]"
      unfolding sel by (rule keys)
    have c2: "map_of (betti_numbers out) ''beta_0''
          = Some (int (num_components
                         (set (map (\<lambda>s. s ! 0) (simplices_get (simplices out) 0)))
                         (edge_rel (simplices_get (simplices out) 1))))"
    proof -
      have "betti_value ?sbd 0 = int (num_components
                         (set (map (\<lambda>s. s ! 0) (simplices_get ?sbd 0)))
                         (edge_rel (simplices_get ?sbd 1)))"
        by (simp add: betti_value_def)
      then show ?thesis unfolding sel using zero by (simp only: beta_key_zero)
    qed
    have c3: "map_of (betti_numbers out) (beta_key k)
               = Some (max 0 (int (length (simplices_get (simplices out) k))
                              - int (length (simplices_get (simplices out) (k - 1)))
                              - int (length (simplices_get (simplices out) (k + 1)))))"
      if "1 \<le> k \<and> k \<le> Max (set (map fst (simplices out)))" for k
    proof -
      have k: "k \<noteq> 0" "k \<le> ?M" using that unfolding sel by simp_all
      have "betti_value ?sbd k = max 0 (int (length (simplices_get ?sbd k))
                              - int (length (simplices_get ?sbd (k - 1)))
                              - int (length (simplices_get ?sbd (k + 1))))"
        using k(1) by (simp add: betti_value_def)
      then show ?thesis unfolding sel using higher[OF k(2)] by (simp only:)
    qed
    have c3': "\<forall>k. 1 \<le> k \<and> k \<le> Max (set (map fst (simplices out))) \<longrightarrow>
             map_of (betti_numbers out) (beta_key k)
               = Some (max 0 (int (length (simplices_get (simplices out) k))
                              - int (length (simplices_get (simplices out) (k - 1)))
                              - int (length (simplices_get (simplices out) (k + 1)))))"
      using c3 by (intro allI impI)
    show ?thesis
      by (rule exI[of _ out]) (intro conjI run c1 c2 c3')
  qed
next
  let ?b = "\<lparr>venue_id = u, event_id = e, timeslot_id = ts, vendor_ids = Some [v]\<rparr>"
  let ?A = "''venue:'' @ u" and ?B = "''event:'' @ e"
  let ?C = "''timeslot:'' @ get_default ts ''default''" and ?D = "''vendor:'' @ v"
  let ?sbd = "snd (booking_simplices [?b])"
  let ?M = "Max (set (map fst ?sbd))"
  note fw = four_way_complex[OF entity_order(1)[of e "get_default ts ''default''"]
              entity_order(4)[of "get_default ts ''default''" v] entity_order(6)[of v u]
              four_entities[of u e ts v]]
  have "map (\<lambda>s. s ! 0) (map (\<lambda>e. [e]) xs) = xs" for xs :: "string list"
    by (induction xs) simp_all
  then have v: "set (map (\<lambda>s. s ! 0) (simplices_get ?sbd 0)) = {?A, ?B, ?C, ?D}"
    unfolding fw(4) by (simp only: fw(5))
  have "betti_value ?sbd 0 = int (num_components
                         (set (map (\<lambda>s. s ! 0) (simplices_get ?sbd 0)))
                         (edge_rel (simplices_get ?sbd 1)))"
    by (simp add: betti_value_def)
  then have "betti_value ?sbd 0 = 1"
    unfolding v fw(1) by (simp only: four_way_connected of_nat_1)
  moreover have "map_of (map (\<lambda>k. (beta_key k, betti_value ?sbd k)) [0..<?M + 1]) (beta_key 0)
                   = Some (betti_value ?sbd 0)"
    by (rule map_of_beta) (simp del: upt_Suc)
  ultimately have b0: "map_of (map (\<lambda>k. (beta_key k, betti_value ?sbd k)) [0..<?M + 1]) ''beta_0''
                   = Some 1"
    by (simp only: beta_key_zero)
  have l0: "length (simplices_get ?sbd 0) = 4" unfolding fw(4) by (simp only: length_map fw(6))
  have "length [[?B, ?A], [?C, ?A], [?D, ?A], [?B, ?C], [?B, ?D], [?C, ?D]] = 6" by simp
  then have l1: "length (simplices_get ?sbd 1) = 6" unfolding fw(1) .
  have "length [[?B, ?C, ?A], [?B, ?D, ?A], [?C, ?D, ?A], [?B, ?C, ?D]] = 4" by simp
  then have l2: "length (simplices_get ?sbd 2) = 4" unfolding fw(2) .
  have "length [[?B, ?C, ?D, ?A]] = 1" by simp
  then have l3: "length (simplices_get ?sbd 3) = 1" unfolding fw(3) .
  show "\<exists>out. build_booking_simplicial_complex [?b] = Some (Inr out)
          \<and> length (simplices_get (simplices out) 0) = 4
          \<and> length (simplices_get (simplices out) 1) = 6
          \<and> length (simplices_get (simplices out) 2) = 4
          \<and> length (simplices_get (simplices out) 3) = 1
          \<and> map_of (betti_numbers out) ''beta_0'' = Some 1"
  proof -
    define out where "out = \<lparr>simplices = ?sbd,
                counts = map (\<lambda>(k, simps). (''dim_'' @ str_nat k, int (length simps))) ?sbd,
                num_entities = int (length (fst (booking_simplices [?b]))),
                betti_numbers = map (\<lambda>k. (beta_key k, betti_value ?sbd k)) [0..<?M + 1]\<rparr>"
    have run: "build_booking_simplicial_complex [?b] = Some (Inr out)"
      unfolding out_def by (rule build_returns)
    have sel: "simplices out = ?sbd"
      "betti_numbers out = map (\<lambda>k. (beta_key k, betti_value ?sbd k)) [0..<?M + 1]"
      by (simp_all add: out_def)
    show ?thesis
      by (rule exI[of _ out]) (intro conjI run, simp_all only: sel l0 l1 l2 l3 b0)
  qed
qed




lemma four_way_keys: "map fst (snd (booking_simplices [four_way])) = [1, 2, 3, 0]"
  by code_simp

lemma four_way_lengths:
  "length (simplices_get (snd (booking_simplices [four_way])) 0) = 4"
  "length (simplices_get (snd (booking_simplices [four_way])) 1) = 6"
  "length (simplices_get (snd (booking_simplices [four_way])) 2) = 4"
  by code_simp+


text \<open>
  The theorem at one booking with one vendor: the complex has dimension 3, so \<open>k = 1\<close>
  is in range, and \<open>beta_1 = max(0, 6 - 4 - 4) = 0\<close>.
\<close>

theorem betti_numbers_of_bookings_witness:
  "(1 :: nat) \<le> 1
   \<and> (\<exists>out. build_booking_simplicial_complex [four_way] = Some (Inr out)
          \<and> 1 \<le> Max (set (map fst (simplices out)))
          \<and> map_of (betti_numbers out) (beta_key 1) = Some 0
          \<and> map_of (betti_numbers out) ''beta_0'' = Some 1)"
proof -
  note T = betti_numbers_of_bookings [of "[four_way]" "''u''" "''e''" "Some ''t''" "''v''"]
  from T obtain out where out: "build_booking_simplicial_complex [four_way] = Some (Inr out)"
    and hi: "\<forall>k. 1 \<le> k \<and> k \<le> Max (set (map fst (simplices out))) \<longrightarrow>
             map_of (betti_numbers out) (beta_key k)
               = Some (max 0 (int (length (simplices_get (simplices out) k))
                              - int (length (simplices_get (simplices out) (k - 1)))
                              - int (length (simplices_get (simplices out) (k + 1)))))"
    by blast
  from T obtain out' where out': "build_booking_simplicial_complex [four_way] = Some (Inr out')"
    and b0: "map_of (betti_numbers out') ''beta_0'' = Some 1"
    unfolding four_way_def by blast
  have same: "out' = out" using out out' by simp
  have sim: "simplices out = snd (booking_simplices [four_way])"
    using out unfolding build_returns by auto
  have m: "Max (set (map fst (simplices out))) = 3"
    unfolding sim four_way_keys by simp
  have l: "length (simplices_get (snd (booking_simplices [four_way])) (Suc 0)) = 6"
    "length (simplices_get (snd (booking_simplices [four_way])) (Suc (Suc 0))) = 4"
    by code_simp+
  have "map_of (betti_numbers out) (beta_key 1)
          = Some (max 0 (int (length (simplices_get (simplices out) 1))
                              - int (length (simplices_get (simplices out) (1 - 1)))
                              - int (length (simplices_get (simplices out) (1 + 1)))))"
    using hi m by simp
  then have b1: "map_of (betti_numbers out) (beta_key 1) = Some 0"
    unfolding sim by (simp add: four_way_lengths l)
  show ?thesis using out m b1 b0 same by auto
qed


subsection \<open>Sublists of a sorted tuple\<close>

lemma subseq_sorted:
  fixes xs ys :: "'a :: linorder list"
  assumes "subseq xs ys" "sorted ys"
  shows "sorted xs"
  using assms
proof (induction rule: list_emb.induct)
  case (list_emb_Nil ys)
  then show ?case by simp
next
  case (list_emb_Cons xs ys y)
  then show ?case by simp
next
  case (list_emb_Cons2 x y xs ys)
  then have "set xs \<subseteq> set ys" by (intro subseq_set)
  then show ?case using list_emb_Cons2 by auto
qed

lemma subseq_mset: "subseq xs ys \<Longrightarrow> mset xs \<subseteq># mset ys"
proof (induction rule: list_emb.induct)
  case (list_emb_Nil ys)
  then show ?case by simp
next
  case (list_emb_Cons xs ys y)
  have "mset ys \<subseteq># {#y#} + mset ys" by (rule mset_subset_eq_add_right)
  then have "mset xs \<subseteq># {#y#} + mset ys"
    using list_emb_Cons.IH by (rule subset_mset.order_trans[rotated])
  then show ?case by simp
next
  case (list_emb_Cons2 x y xs ys)
  then show ?case by simp
qed

lemma mset_subseq:
  "M \<subseteq># mset c \<Longrightarrow> \<exists>c'. subseq c' c \<and> mset c' = M"
proof (induction c arbitrary: M)
  case Nil
  then show ?case by simp
next
  case (Cons x c)
  show ?case
  proof (cases "x \<in># M")
    case True
    have "M - {#x#} \<subseteq># mset c"
      using Cons.prems by (simp add: subset_eq_diff_conv)
    then obtain c' where "subseq c' c" "mset c' = M - {#x#}" using Cons.IH by blast
    then have "subseq (x # c') (x # c)" "mset (x # c') = M" using True by simp_all
    then show ?thesis by blast
  next
    case False
    have "M - {#x#} \<subseteq># mset c"
      using Cons.prems by (simp add: subset_eq_diff_conv)
    then have "M \<subseteq># mset c" using False by simp
    then obtain c' where c': "subseq c' c" "mset c' = M" using Cons.IH by blast
    have "subseq c' (x # c)" using c'(1) by (rule list_emb_Cons)
    then show ?thesis using c'(2) by blast
  qed
qed

lemma subseq_of_sort:
  fixes c :: "string list"
  assumes "subseq t (sort c)"
  shows "\<exists>c'. subseq c' c \<and> sort c' = t"
proof -
  have st: "sorted t" using assms by (rule subseq_sorted) simp
  have "mset t \<subseteq># mset (sort c)" using assms by (rule subseq_mset)
  then have "mset t \<subseteq># mset c" by simp
  then obtain c' where c': "subseq c' c" "mset c' = mset t" using mset_subseq by blast
  have "sort c' = t" using c'(2) st by (intro properties_for_sort) simp_all
  then show ?thesis using c'(1) by blast
qed


subsection \<open>Downward closure up to tetrahedra\<close>

lemma subset_simplex:
  assumes b: "b \<in> set bs" and c: "subseq c (all_entities b)"
    and l1: "1 \<le> length c" and l4: "length c \<le> 4"
  shows "sort c \<in> set (simplices_get (snd (booking_simplices bs)) (length c - 1))"
proof (cases "length c = 1")
  case True
  then obtain e where e: "c = [e]" by (cases c) simp_all
  have "set c \<subseteq> set (all_entities b)" using c by (rule subseq_set)
  then have "e \<in> (\<Union>b \<in> set bs. set (all_entities b))" using b e by auto
  then have "e \<in> set (fst (booking_simplices bs))"
    by (simp only: booking_simplices_entities(1))
  then show ?thesis by (simp add: e booking_simplices_get)
next
  case False
  define k where "k = length c - 1"
  have k: "length c = Suc k" "k \<noteq> 0" "k \<le> 3" using False l1 l4 by (simp_all add: k_def)
  have "c \<in> set (combinations (all_entities b) (Suc k))"
    using c k(1) by (simp add: combinations_iff)
  then have "sort c \<in> set (remdups (map sort (concat (map (\<lambda>b. combinations (all_entities b) (Suc k)) bs))))"
    using b by auto
  then show ?thesis
    unfolding k_def[symmetric] using k(2,3) by (simp add: booking_simplices_get)
qed

lemma simplex_origin:
  assumes "s \<in> set (simplices_get (snd (booking_simplices bs)) k)"
  shows "k \<le> 3 \<and> (\<exists>b \<in> set bs. \<exists>c. subseq c (all_entities b) \<and> length c = Suc k \<and> s = sort c)"
proof (cases "k = 0")
  case True
  then obtain e where e: "s = [e]" "e \<in> set (fst (booking_simplices bs))"
    using assms by (auto simp: booking_simplices_get)
  then have "e \<in> (\<Union>b \<in> set bs. set (all_entities b))"
    by (simp only: booking_simplices_entities(1))
  then obtain b where b: "b \<in> set bs" "e \<in> set (all_entities b)" by blast
  have "subseq [e] (all_entities b)" using b(2) by (simp add: subseq_singleton_left)
  then show ?thesis using True b(1) e(1) by (intro conjI bexI[of _ b] exI[of _ "[e]"]) simp_all
next
  case False
  have k3: "k \<le> 3" using assms False by (cases "k \<le> 3") (simp_all add: booking_simplices_get)
  then have "s \<in> set (remdups (map sort (concat (map (\<lambda>b. combinations (all_entities b) (Suc k)) bs))))"
    using assms False by (simp add: booking_simplices_get)
  then obtain b c where bc: "b \<in> set bs" "c \<in> set (combinations (all_entities b) (Suc k))" "s = sort c"
    by auto
  then have "subseq c (all_entities b)" "length c = Suc k" by (simp_all add: combinations_iff)
  then show ?thesis using k3 bc(1,3) by blast
qed

lemma face_simplex:
  assumes s: "s \<in> set (simplices_get (snd (booking_simplices bs)) k)"
    and t: "subseq t s" "t \<noteq> []"
  shows "t \<in> set (simplices_get (snd (booking_simplices bs)) (length t - 1))"
proof -
  from simplex_origin[OF s] obtain b c where k3: "k \<le> 3" and b: "b \<in> set bs"
    and c: "subseq c (all_entities b)" "length c = Suc k" "s = sort c" by blast
  from t(1) c(3) have "subseq t (sort c)" by simp
  then obtain c' where c': "subseq c' c" "sort c' = t" using subseq_of_sort by blast
  have len: "length c' = length t" using c'(2) by (metis length_sort)
  have "length c' \<le> length c" using c'(1) by (rule list_emb_length)
  then have l4: "length c' \<le> 4" using c(2) k3 by simp
  have l1: "1 \<le> length c'" using t(2) len by (cases t) simp_all
  have "subseq c' (all_entities b)" using c'(1) c(1) by (rule subseq_order.order_trans)
  from subset_simplex[OF b this l1 l4] show ?thesis unfolding len c'(2) .
qed

text \<open>
  Claim C3, as amended. The claim reads: for every relation, every nonempty subset of
  its entity set is a simplex of the output, also when the relation has five or more
  entities. The source adds the pairs, triples and quadruples of a booking's entities
  and nothing larger. So, for every list of bookings, the builder returns, and in its
  result: every sub-tuple of one to four entities of a booking is present, in sorted
  form, at the dimension of its length minus one; every nonempty sub-tuple of a simplex
  that is present is present; and every simplex of dimension \<open>k\<close> has \<open>k + 1\<close> vertices with
  \<open>k \<le> 3\<close>, so that no subset of five or more entities is ever present.
\<close>

theorem booking_complex_closed:
  "\<exists>out. build_booking_simplicial_complex bookings = Some (Inr out)
     \<and> (\<forall>b \<in> set bookings. \<forall>c. subseq c (all_entities b) \<and> 1 \<le> length c \<and> length c \<le> 4
            \<longrightarrow> sort c \<in> set (simplices_get (simplices out) (length c - 1)))
     \<and> (\<forall>k s t. s \<in> set (simplices_get (simplices out) k) \<and> subseq t s \<and> t \<noteq> []
            \<longrightarrow> t \<in> set (simplices_get (simplices out) (length t - 1)))
     \<and> (\<forall>k s. s \<in> set (simplices_get (simplices out) k) \<longrightarrow> length s = k + 1 \<and> k \<le> 3)"
proof -
  let ?sbd = "snd (booking_simplices bookings)"
  define out where "out = \<lparr>simplices = ?sbd,
                counts = map (\<lambda>(k, simps). (''dim_'' @ str_nat k, int (length simps))) ?sbd,
                num_entities = int (length (fst (booking_simplices bookings))),
                betti_numbers = map (\<lambda>k. (beta_key k, betti_value ?sbd k))
                                  [0..<Max (set (map fst ?sbd)) + 1]\<rparr>"
  have run: "build_booking_simplicial_complex bookings = Some (Inr out)"
    unfolding out_def by (rule build_returns)
  have sel: "simplices out = ?sbd" by (simp add: out_def)
  have p1: "\<forall>b \<in> set bookings. \<forall>c. subseq c (all_entities b) \<and> 1 \<le> length c \<and> length c \<le> 4
            \<longrightarrow> sort c \<in> set (simplices_get (simplices out) (length c - 1))"
    unfolding sel using subset_simplex by blast
  have p2: "\<forall>k s t. s \<in> set (simplices_get (simplices out) k) \<and> subseq t s \<and> t \<noteq> []
            \<longrightarrow> t \<in> set (simplices_get (simplices out) (length t - 1))"
    unfolding sel using face_simplex by blast
  have p3: "\<forall>k s. s \<in> set (simplices_get (simplices out) k) \<longrightarrow> length s = k + 1 \<and> k \<le> 3"
  proof (intro allI impI)
    fix k s assume "s \<in> set (simplices_get (simplices out) k)"
    then have "s \<in> set (simplices_get ?sbd k)" by (simp only: sel)
    from simplex_origin[OF this] obtain c where "k \<le> 3" "length c = Suc k" "s = sort c" by blast
    then show "length s = k + 1 \<and> k \<le> 3" by simp
  qed
  show ?thesis
    by (rule exI[of _ out]) (intro conjI run p1 p2 p3)
qed

text \<open>
  The theorem at \<open>five_way\<close>, a booking with two vendors: the quadruple without the venue
  is a 3-simplex, and its face of the timeslot and the second vendor is a 1-simplex.
\<close>

lemma five_way_entities:
  "all_entities five_way = [''venue:u'', ''event:e'', ''timeslot:t'', ''vendor:v'', ''vendor:w'']"
  by code_simp

lemma five_way_facts:
  "subseq [''event:e'', ''timeslot:t'', ''vendor:v'', ''vendor:w''] (all_entities five_way)"
  "sort [''event:e'', ''timeslot:t'', ''vendor:v'', ''vendor:w'']
     = [''event:e'', ''timeslot:t'', ''vendor:v'', ''vendor:w'']"
  "subseq [''timeslot:t'', ''vendor:w''] [''event:e'', ''timeslot:t'', ''vendor:v'', ''vendor:w'']"
  by code_simp+

theorem booking_complex_closed_witness:
  "\<exists>out. build_booking_simplicial_complex [five_way] = Some (Inr out)
     \<and> five_way \<in> set [five_way]
     \<and> subseq [''event:e'', ''timeslot:t'', ''vendor:v'', ''vendor:w''] (all_entities five_way)
     \<and> [''event:e'', ''timeslot:t'', ''vendor:v'', ''vendor:w''] \<in> set (simplices_get (simplices out) 3)
     \<and> subseq [''timeslot:t'', ''vendor:w''] [''event:e'', ''timeslot:t'', ''vendor:v'', ''vendor:w'']
     \<and> [''timeslot:t'', ''vendor:w''] \<in> set (simplices_get (simplices out) 1)
     \<and> length [''event:e'', ''timeslot:t'', ''vendor:v'', ''vendor:w''] = 3 + 1"
proof -
  let ?c = "[''event:e'', ''timeslot:t'', ''vendor:v'', ''vendor:w'']"
  let ?t = "[''timeslot:t'', ''vendor:w'']"
  from booking_complex_closed [of "[five_way]"] obtain out
    where run: "build_booking_simplicial_complex [five_way] = Some (Inr out)"
      and p1: "\<forall>b \<in> set [five_way]. \<forall>c. subseq c (all_entities b) \<and> 1 \<le> length c \<and> length c \<le> 4
            \<longrightarrow> sort c \<in> set (simplices_get (simplices out) (length c - 1))"
      and p2: "\<forall>k s t. s \<in> set (simplices_get (simplices out) k) \<and> subseq t s \<and> t \<noteq> []
            \<longrightarrow> t \<in> set (simplices_get (simplices out) (length t - 1))"
      and p3: "\<forall>k s. s \<in> set (simplices_get (simplices out) k) \<longrightarrow> length s = k + 1 \<and> k \<le> 3"
    by blast
  have "sort ?c \<in> set (simplices_get (simplices out) (length ?c - 1))"
    using p1[rule_format, of five_way ?c] five_way_facts(1) by simp
  then have s: "?c \<in> set (simplices_get (simplices out) 3)"
    unfolding five_way_facts(2) by (simp add: numeral_3_eq_3)
  have "?t \<in> set (simplices_get (simplices out) (length ?t - 1))"
    using p2[rule_format, of ?c 3 ?t] s five_way_facts(3) by simp
  then have t: "?t \<in> set (simplices_get (simplices out) 1)" by simp
  have l: "length ?c = 3 + 1" using p3[rule_format, of ?c 3] s by simp
  show ?thesis
    by (rule exI[of _ out]) (intro conjI run s t l five_way_facts(1) five_way_facts(3), simp)
qed

text \<open>
  Counterexample to claim C3 as stated: \<open>five_way\<close> has five distinct entities. The
  complex built from it has the dimensions 1, 2, 3 and 0, and the sorted tuple of the
  five entities, a nonempty subset of the booking's entity set, is a simplex of none.
\<close>

lemma five_way_run:
  "(length (all_entities five_way), distinct (all_entities five_way),
    map fst (snd (booking_simplices [five_way])),
    sort (all_entities five_way) \<in> set (concat (map snd (snd (booking_simplices [five_way])))))
   = (5, True, [1, 2, 3, 0], False)"
  by code_simp

theorem booking_complex_five_way_counterexample:
  "map_option (map_sum id (\<lambda>out. (length (all_entities five_way), distinct (all_entities five_way),
        map fst (simplices out),
        sort (all_entities five_way) \<in> set (concat (map snd (simplices out))))))
     (build_booking_simplicial_complex [five_way])
   = Some (Inr (5, True, [1, 2, 3, 0], False))"
  by (simp only: build_returns option.map map_sum.simps complex_result.select_convs five_way_run)

end
